theory Spec2Isabelle
  imports Complex_Main "HOL-Library.Multiset"
begin

section \<open>Order Splitter: page classification (streamlit\_app.py)\<close>

text \<open>
  Strings are lists of 8-bit characters, read as the code points below 256 (ASCII and
  Latin-1); the Python source works on \<open>str\<close>. The string methods and character classes
  below are those of Python on these code points. Three letters have an uppercase form
  that is not one 8-bit character (see \<open>upper_char\<close>). Python raises nothing in any of
  these functions, so they are plain total functions.
\<close>

subsection \<open>String primitives of the Python library\<close>

definition code :: "char \<Rightarrow> nat" where
  "code c = of_char c"

text \<open>
  \<open>str.isspace\<close> on one character, which is also what \<open>str.strip()\<close> removes and what
  \<open>\s\<close> matches: TAB, LF, VT, FF, CR, FS, GS, RS, US, space, NEL (0x85) and the
  no-break space (0xA0).
\<close>

definition py_isspace :: "char \<Rightarrow> bool" where
  "py_isspace c = (let n = code c in
     (9 \<le> n \<and> n \<le> 13) \<or> (28 \<le> n \<and> n \<le> 32) \<or> n = 133 \<or> n = 160)"

text \<open>\<open>s.strip()\<close>: drop whitespace from both ends.\<close>

definition py_strip :: "string \<Rightarrow> string" where
  "py_strip s = rev (dropWhile py_isspace (rev (dropWhile py_isspace s)))"

text \<open>\<open>s.strip(chars)\<close>: drop the characters of \<open>chars\<close> from both ends.\<close>

definition py_strip_chars :: "string \<Rightarrow> string \<Rightarrow> string" where
  "py_strip_chars chars s =
     rev (dropWhile (\<lambda>c. c \<in> set chars) (rev (dropWhile (\<lambda>c. c \<in> set chars) s)))"

text \<open>
  \<open>str.upper()\<close> and \<open>str.lower()\<close> on one character: the letters \<open>a\<close> to \<open>z\<close> and the
  Latin-1 letters 0xE0 to 0xFE (but the division sign 0xF7) have their uppercase 32
  below, and conversely (but the multiplication sign 0xD7). The uppercase of the sharp s
  (0xDF), of the micro sign (0xB5) and of the y with diaeresis (0xFF) is not one 8-bit
  character (\<open>SS\<close>, U+039C, U+0178): \<open>upper_char\<close> leaves these three unchanged.
\<close>

definition upper_char :: "char \<Rightarrow> char" where
  "upper_char c = (let n = code c in
     if (97 \<le> n \<and> n \<le> 122) \<or> (224 \<le> n \<and> n \<le> 254 \<and> n \<noteq> 247)
     then char_of (n - 32) else c)"

definition lower_char :: "char \<Rightarrow> char" where
  "lower_char c = (let n = code c in
     if (65 \<le> n \<and> n \<le> 90) \<or> (192 \<le> n \<and> n \<le> 222 \<and> n \<noteq> 215)
     then char_of (n + 32) else c)"

definition py_upper :: "string \<Rightarrow> string" where
  "py_upper s = map upper_char s"


text \<open>\<open>s.replace(c, "")\<close> for a one-character \<open>c\<close>.\<close>

definition py_remove :: "char \<Rightarrow> string \<Rightarrow> string" where
  "py_remove c s = filter (\<lambda>x. x \<noteq> c) s"

text \<open>\<open>s.replace(c, d)\<close> for one-character \<open>c\<close> and \<open>d\<close>.\<close>

definition py_replace_char :: "char \<Rightarrow> char \<Rightarrow> string \<Rightarrow> string" where
  "py_replace_char c d s = map (\<lambda>x. if x = c then d else x) s"

subsection \<open>Settings\<close>

text \<open>
  \<open>ZERO_SIGNIFICANT = st.sidebar.checkbox("Treat leading zeros as significant", value=False)\<close>:
  the only setting of the program, a global that \<open>normalize_key\<close> reads. The model passes
  it as the first argument; its default is the checkbox's \<open>value\<close>.
\<close>

definition ZERO_SIGNIFICANT_default :: bool where
  "ZERO_SIGNIFICANT_default = False"

subsection \<open>normalize\_key\<close>

text \<open>
  \<open>re.sub(r"^0+(?!$)", "", s)\<close>. The pattern is anchored at the start, so it matches at
  most once. \<open>0+\<close> is greedy and backtracks one zero at a time until the lookahead
  \<open>(?!$)\<close> holds; \<open>$\<close> holds at the end of the string and just before a final newline.
  So the longest run of leading zeros that is not followed by the end (or by a final
  newline) is removed: all leading zeros when something else follows, all but the last
  one otherwise.
\<close>

definition at_dollar :: "string \<Rightarrow> bool" where
  "at_dollar rest = (rest = [] \<or> rest = [CHR 0x0A])"

definition sub_leading_zeros :: "string \<Rightarrow> string" where
  "sub_leading_zeros s =
     (let zs = takeWhile (\<lambda>c. c = CHR ''0'') s;
          rest = dropWhile (\<lambda>c. c = CHR ''0'') s
      in if at_dollar rest then (if zs = [] then s else CHR ''0'' # rest) else rest)"

definition normalize_key :: "bool \<Rightarrow> string \<Rightarrow> string" where
  "normalize_key zero_significant s0 =
     (let s = py_strip s0;
          s = (if \<not> zero_significant then sub_leading_zeros s else s);
          s = py_remove CHR ''/'' (py_remove CHR ''_'' (py_remove CHR ''-''
                (py_remove CHR '' '' (py_upper s))))
      in s)"

text \<open>The characters that \<open>normalize_key\<close> removes after uppercasing (used to state its properties).\<close>

definition key_sep :: "char \<Rightarrow> bool" where
  "key_sep c = (c = CHR '' '' \<or> c = CHR ''-'' \<or> c = CHR ''_'' \<or> c = CHR ''/'')"

subsection \<open>Regular expressions of the anchor patterns\<close>

text \<open>
  The fragment of Python's \<open>re\<close> that \<open>ANCHOR_PATTERNS\<close> uses, with the backtracking
  order of the library: \<open>ends r x\<close> lists the positions where a match of \<open>r\<close> that
  starts at \<open>x\<close> can end, the one the matcher tries first at the head. A position is
  the character before it (for \<open>\b\<close>) and the text after it. Repetition occurs in
  the patterns only over single characters (\<open>\s*\<close>, \<open>[...]{2,}\<close>), greedy.
\<close>

datatype rx =
    Eps
  | Cls "char \<Rightarrow> bool"
  | Seq rx rx
  | Alt rx rx
  | Opt rx
  | Star "char \<Rightarrow> bool"
  | WordB

type_synonym pos = "char option \<times> string"

text \<open>\<open>[A-Z0-9]\<close> under \<open>re.IGNORECASE\<close>: the ASCII letters and digits.\<close>

definition is_alnum :: "char \<Rightarrow> bool" where
  "is_alnum c = (let n = code c in
     (48 \<le> n \<and> n \<le> 57) \<or> (65 \<le> n \<and> n \<le> 90) \<or> (97 \<le> n \<and> n \<le> 122))"

text \<open>
  \<open>\w\<close>: the ASCII letters and digits, the underscore, and the Latin-1 letters and
  numerals (0xAA, 0xB2, 0xB3, 0xB5, 0xB9, 0xBA, 0xBC to 0xBE, 0xC0 to 0xD6, 0xD8 to 0xF6,
  0xF8 to 0xFF).
\<close>

definition is_word :: "char \<Rightarrow> bool" where
  "is_word c = (let n = code c in
     is_alnum c \<or> c = CHR ''_'' \<or> n = 170 \<or> n = 178 \<or> n = 179 \<or> n = 181 \<or> n = 185
     \<or> n = 186 \<or> (188 \<le> n \<and> n \<le> 190) \<or> (192 \<le> n \<and> n \<le> 214)
     \<or> (216 \<le> n \<and> n \<le> 246) \<or> 248 \<le> n)"

definition word_before :: "pos \<Rightarrow> bool" where
  "word_before x = (case fst x of None \<Rightarrow> False | Some c \<Rightarrow> is_word c)"

definition word_after :: "pos \<Rightarrow> bool" where
  "word_after x = (case snd x of [] \<Rightarrow> False | c # _ \<Rightarrow> is_word c)"

fun ends :: "rx \<Rightarrow> pos \<Rightarrow> pos list" where
  "ends Eps x = [x]"
| "ends (Cls p) (prev, s) =
     (case s of [] \<Rightarrow> [] | c # cs \<Rightarrow> if p c then [(Some c, cs)] else [])"
| "ends (Seq a b) x = concat (map (ends b) (ends a x))"
| "ends (Alt a b) x = ends a x @ ends b x"
| "ends (Opt a) x = ends a x @ [x]"
| "ends (Star p) (prev, s) =
     (case s of [] \<Rightarrow> [(prev, s)]
      | c # cs \<Rightarrow> if p c then ends (Star p) (Some c, cs) @ [(prev, s)] else [(prev, s)])"
| "ends WordB x = (if word_before x \<noteq> word_after x then [x] else [])"

text \<open>A literal character under \<open>re.IGNORECASE\<close>, and a literal string.\<close>

definition ilit :: "char \<Rightarrow> rx" where
  "ilit c = Cls (\<lambda>x. lower_char x = lower_char c)"

definition istr :: "string \<Rightarrow> rx" where
  "istr s = foldr (\<lambda>c r. Seq (ilit c) r) s Eps"

text \<open>\<open>\s*\<close>, \<open>[:\-]?\<close>, \<open>[A-Z0-9]\<close> and \<open>[A-Z0-9\-/_]\<close> (the last two under \<open>re.IGNORECASE\<close>).\<close>

definition spaces :: rx where
  "spaces = Star py_isspace"

definition sep :: rx where
  "sep = Opt (Cls (\<lambda>c. c = CHR '':'' \<or> c = CHR ''-''))"

definition tok_char :: "char \<Rightarrow> bool" where
  "tok_char c = (is_alnum c \<or> c = CHR ''-'' \<or> c = CHR ''/'' \<or> c = CHR ''_'')"

text \<open>Group 2 of every pattern: \<open>([A-Z0-9][A-Z0-9\-/_]{2,})\<close>.\<close>

definition token_rx :: rx where
  "token_rx = Seq (Cls is_alnum) (Seq (Cls tok_char) (Seq (Cls tok_char) (Star tok_char)))"

text \<open>
  \<open>ANCHOR_PATTERNS\<close>: each entry is group 1, group 2 and the label.
  \<^item> \<open>(Model(?:\s*#|(?:\s*Number)?)\s*[:\-]?\s*)\<close>, "Model"
  \<^item> \<open>(Item\s*#\s*[:\-]?\s*)\<close>, "Item"
  \<^item> \<open>(Internet\s*#\s*[:\-]?\s*)\<close>, "Internet"
  \<^item> \<open>(\bSKU\b(?:\s*#)?\s*[:\-]?\s*)\<close>, "SKU"
\<close>

definition tail_rx :: rx where
  "tail_rx = Seq spaces (Seq sep spaces)"

definition ANCHOR_PATTERNS :: "(rx \<times> rx \<times> string) list" where
  "ANCHOR_PATTERNS =
    [(Seq (istr ''Model'')
        (Seq (Alt (Seq spaces (ilit CHR ''#'')) (Opt (Seq spaces (istr ''Number'')))) tail_rx),
      token_rx, ''Model''),
     (Seq (istr ''Item'') (Seq spaces (Seq (ilit CHR ''#'') tail_rx)), token_rx, ''Item''),
     (Seq (istr ''Internet'') (Seq spaces (Seq (ilit CHR ''#'') tail_rx)), token_rx, ''Internet''),
     (Seq WordB (Seq (istr ''SKU'') (Seq WordB (Seq (Opt (Seq spaces (ilit CHR ''#''))) tail_rx))),
      token_rx, ''SKU'')]"

text \<open>
  One search step of \<open>re.finditer\<close> at a fixed start: the first way, in backtracking
  order, to match group 1 and then group 2. The result is \<open>m.group(2)\<close> and the
  position after the match.
\<close>

definition match_at :: "rx \<Rightarrow> rx \<Rightarrow> pos \<Rightarrow> (string \<times> pos) option" where
  "match_at g1 g2 x =
     (case concat (map (\<lambda>y. map (\<lambda>z. (y, z)) (ends g2 y)) (ends g1 x)) of
        [] \<Rightarrow> None
      | (y, z) # _ \<Rightarrow> Some (take (length (snd y) - length (snd z)) (snd y), z))"

text \<open>
  \<open>re.finditer\<close>: scan from the left; after a match go on where it ended, otherwise
  move one character on. The branch for a match that consumes nothing is never taken
  by the patterns above (group 2 needs three characters, see \<open>finditer_token_rx\<close>) and
  only makes the scan total.
\<close>

function finditer :: "rx \<Rightarrow> rx \<Rightarrow> pos \<Rightarrow> string list" where
  "finditer g1 g2 (prev, s) =
     (case match_at g1 g2 (prev, s) of
        None \<Rightarrow> (case s of [] \<Rightarrow> [] | c # cs \<Rightarrow> finditer g1 g2 (Some c, cs))
      | Some (tok, (prev', rest)) \<Rightarrow>
          if length rest < length s then tok # finditer g1 g2 (prev', rest)
          else tok # (case s of [] \<Rightarrow> [] | c # cs \<Rightarrow> finditer g1 g2 (Some c, cs)))"
  by pat_completeness auto
termination
  by (relation "measure (\<lambda>(g1, g2, x). length (snd x))") auto

subsection \<open>extract\_candidates\<close>

text \<open>
  \<open>text\<close> is \<open>None\<close> or a string; \<open>if not text: return cands\<close> returns the empty list
  for both \<open>None\<close> and the empty string.
\<close>

definition extract_candidates :: "string option \<Rightarrow> (string \<times> string) list" where
  "extract_candidates text =
     (case text of
        None \<Rightarrow> []
      | Some t \<Rightarrow>
          if t = [] then []
          else
            (let joined = py_replace_char (CHR 0x0A) CHR '' '' (py_replace_char (CHR 0x0D) CHR '' '' t)
             in concat (map (\<lambda>(g1, g2, label).
                   map (\<lambda>tok. (label, py_strip_chars '':#'' (py_strip tok)))
                       (finditer g1 g2 (None, joined)))
                 ANCHOR_PATTERNS)))"

subsection \<open>safe\_name and output paths\<close>

text \<open>
  \<open>re.sub(r"[^\w\-]+", "_", s).strip("_")\<close>: every maximal run of characters other
  than word characters and \<open>-\<close> becomes one underscore; then underscores are dropped
  from both ends.
\<close>

definition name_char :: "char \<Rightarrow> bool" where
  "name_char c = (is_word c \<or> c = CHR ''-'')"

function sub_runs :: "string \<Rightarrow> string" where
  "sub_runs [] = []"
| "sub_runs (c # cs) =
     (if name_char c then c # sub_runs cs
      else CHR ''_'' # sub_runs (dropWhile (\<lambda>x. \<not> name_char x) cs))"
  by pat_completeness auto
termination
  by (relation "measure length") (auto simp: less_Suc_eq_le length_dropWhile_le)

definition safe_name :: "string \<Rightarrow> string" where
  "safe_name s = py_strip_chars ''_'' (sub_runs s)"

text \<open>\<open>os.path.join(a, b)\<close> on POSIX, two components.\<close>

definition path_join :: "string \<Rightarrow> string \<Rightarrow> string" where
  "path_join a b =
     (if b \<noteq> [] \<and> hd b = CHR ''/'' then b
      else if a = [] \<or> last a = CHR ''/'' then a @ b
      else a @ ''/'' @ b)"

subsection \<open>Number formatting\<close>

definition digit_char :: "nat \<Rightarrow> char" where
  "digit_char d = char_of (48 + d)"

text \<open>\<open>str(n)\<close> for a natural number.\<close>

function str_nat :: "nat \<Rightarrow> string" where
  "str_nat n = (if n < 10 then [digit_char n] else str_nat (n div 10) @ [digit_char (n mod 10)])"
  by pat_completeness auto
termination
  by (relation "measure (\<lambda>n. n)") auto

declare str_nat.simps [simp del]

text \<open>
  \<open>f"{x:.2f}"\<close>: two decimals, rounded to nearest (ties to even). Confidence scores are
  Python floats; the model computes them as rationals. The only scores the program
  produces are \<open>1.0 - 0.1 * k\<close> for \<open>k < 4\<close> and \<open>0.5\<close>; their floating-point values are in
  the same strict order as the rationals and print as the same two decimals.
\<close>

definition format_2f :: "rat \<Rightarrow> string" where
  "format_2f x =
     (let y = \<bar>x\<bar> * 100;
          f = \<lfloor>y\<rfloor>;
          r = y - of_int f;
          n = nat (if r < 1 / 2 then f else if 1 / 2 < r then f + 1
                   else if even f then f else f + 1)
      in (if x < 0 then ''-'' else []) @ str_nat (n div 100) @ ''.'' @
         [digit_char (n mod 100 div 10), digit_char (n mod 10)])"

subsection \<open>Matches of one page\<close>

text \<open>
  A match is the tuple \<open>(raw, nz, mapping[nz], label, "native", score)\<close>; the fields
  are the positions 0 to 5.
\<close>

record match =
  m_raw :: string
  m_nz :: string
  m_vendor :: string
  m_label :: string
  m_method :: string
  m_score :: rat

text \<open>\<open>order.index(label)\<close>, called only when \<open>label in order\<close>.\<close>

fun py_index :: "'a list \<Rightarrow> 'a \<Rightarrow> nat" where
  "py_index [] x = 0"
| "py_index (y # ys) x = (if x = y then 0 else Suc (py_index ys x))"

definition anchor_order :: "string list" where
  "anchor_order = map (\<lambda>p. snd (snd p)) ANCHOR_PATTERNS"

text \<open>\<open>score = 1.0 - 0.1 * order.index(label) if label in order else 0.5\<close>\<close>

definition anchor_score :: "string \<Rightarrow> rat" where
  "anchor_score label =
     (if label \<in> set anchor_order then 1 - (1 / 10) * of_nat (py_index anchor_order label)
      else 1 / 2)"

text \<open>
  The loop over the candidates of a page (lines 161 to 167). \<open>mapping\<close> is the
  dictionary from normalized keys to vendors; \<open>nz in keyset\<close> holds exactly when
  \<open>mapping\<close> has the key \<open>nz\<close>.
\<close>

fun page_matches :: "bool \<Rightarrow> (string \<rightharpoonup> string) \<Rightarrow> (string \<times> string) list \<Rightarrow> match list" where
  "page_matches zs mapping [] = []"
| "page_matches zs mapping ((label, raw) # cands) =
     (let nz = normalize_key zs raw in
      case mapping nz of
        None \<Rightarrow> page_matches zs mapping cands
      | Some v \<Rightarrow>
          \<lparr>m_raw = raw, m_nz = nz, m_vendor = v, m_label = label,
           m_method = ''native'', m_score = anchor_score label\<rparr>
          # page_matches zs mapping cands)"

subsection \<open>The vendor mapping (lines 100 to 120)\<close>

text \<open>
  A row of the data frame, after \<open>str(...)\<close>: the text of the cell in each column (a
  missing cell reads \<open>nan\<close> or \<open>None\<close>). The dictionary \<open>mapping\<close> is a map from
  normalized keys to vendor names; a later assignment to a key replaces the earlier one.
\<close>

type_synonym row = "string \<Rightarrow> string"

definition is_placeholder :: "string \<Rightarrow> bool" where
  "is_placeholder v = (v = ''nan'' \<or> v = ''None'')"

text \<open>The inner loop \<open>for col in key_cols\<close> of one row.\<close>

fun add_keys :: "bool \<Rightarrow> string \<Rightarrow> row \<Rightarrow> string list \<Rightarrow> (string \<rightharpoonup> string) \<Rightarrow> (string \<rightharpoonup> string)" where
  "add_keys zs vendor r [] mapping = mapping"
| "add_keys zs vendor r (col # cols) mapping =
     (let v = py_strip (r col) in
      add_keys zs vendor r cols
        (if v \<noteq> [] \<and> \<not> is_placeholder v then mapping(normalize_key zs v \<mapsto> vendor)
         else mapping))"

text \<open>The loop \<open>for _, row in df.iterrows()\<close>.\<close>

fun build_mapping :: "bool \<Rightarrow> string \<Rightarrow> string list \<Rightarrow> row list \<Rightarrow> (string \<rightharpoonup> string) \<Rightarrow> (string \<rightharpoonup> string)" where
  "build_mapping zs vendor_col key_cols [] mapping = mapping"
| "build_mapping zs vendor_col key_cols (r # rows) mapping =
     (let vendor = py_strip (r vendor_col) in
      if vendor = [] \<or> is_placeholder vendor
      then build_mapping zs vendor_col key_cols rows mapping
      else build_mapping zs vendor_col key_cols rows (add_keys zs vendor r key_cols mapping))"




subsection \<open>Routing state and log\<close>

text \<open>One row of the log, with the keys of the dictionary appended to \<open>logs\<close>.\<close>

record log_record =
  store :: string
  source_pdf :: string
  page_index :: string
  vendor :: string
  raw_token :: string
  normalized :: string
  anchor :: string
  log_method :: string
  confidence :: string

text \<open>
  A page object \<open>reader.pages[i]\<close> is named by the name of its PDF and its index.
  \<open>vendor_writers\<close> is the dictionary from vendor to \<open>PdfWriter\<close>, a writer being the
  pages added to it, in insertion order. \<open>mixed_files\<close> and \<open>unmatched_files\<close> are the
  one-page files written to \<open>errors/mixed\<close> and \<open>errors/unmatched\<close>, as the sequence of
  writes (path and page). Each file is opened with \<open>"wb"\<close>, so a later write to a path
  replaces the file that was there: \<open>on_disk\<close> gives the files that a sequence of writes
  leaves in the directory.
\<close>

type_synonym page_ref = "string \<times> nat"

record state =
  vendor_writers :: "(string \<times> page_ref list) list"
  mixed_files :: "(string \<times> page_ref) list"
  unmatched_files :: "(string \<times> page_ref) list"
  logs :: "log_record list"

definition init_state :: state where
  "init_state = \<lparr>vendor_writers = [], mixed_files = [], unmatched_files = [], logs = []\<rparr>"



definition ensure_writer :: "string \<Rightarrow> (string \<times> page_ref list) list \<Rightarrow> (string \<times> page_ref list) list" where
  "ensure_writer v ws = (if map_of ws v = None then ws @ [(v, [])] else ws)"

text \<open>\<open>w.add_page(p)\<close> on the writer stored under \<open>v\<close>.\<close>

fun add_page :: "string \<Rightarrow> page_ref \<Rightarrow> (string \<times> page_ref list) list \<Rightarrow> (string \<times> page_ref list) list" where
  "add_page v p [] = []"
| "add_page v p ((k, ps) # ws) =
     (if k = v then (k, ps @ [p]) # ws else (k, ps) # add_page v p ws)"

text \<open>
  \<open>page.extract_text()\<close> raises or returns \<open>None\<close> or a string;
  \<open>text = page.extract_text() or ""\<close> inside \<open>try\<close>, with \<open>text = ""\<close> on an exception.
\<close>

datatype extraction = Raises | Returns "string option"

definition page_text :: "extraction \<Rightarrow> string" where
  "page_text e = (case e of Raises \<Rightarrow> [] | Returns None \<Rightarrow> [] | Returns (Some t) \<Rightarrow> t)"

definition error_path :: "string \<Rightarrow> string \<Rightarrow> string \<Rightarrow> nat \<Rightarrow> string" where
  "error_path store_key kind pdf_name i =
     path_join (path_join (''outputs/'' @ store_key) (''errors/'' @ kind))
       (safe_name pdf_name @ ''_p'' @ str_nat (i + 1) @ ''.pdf'')"

definition empty_log :: "string \<Rightarrow> string \<Rightarrow> nat \<Rightarrow> string \<Rightarrow> log_record" where
  "empty_log store_key pdf_name i v =
     \<lparr>store = store_key, source_pdf = pdf_name, page_index = str_nat i, vendor = v,
      raw_token = [], normalized = [], anchor = [], log_method = [], confidence = ''0.00''\<rparr>"

subsection \<open>Processing one page (lines 154 to 189)\<close>

text \<open>
  \<open>best = sorted(matches, key=lambda x: -x[5])[0] if matches else None\<close>. Python's
  \<open>sorted\<close> is stable, and so is \<open>sort_key\<close>.
\<close>

definition best_match :: "match list \<Rightarrow> match option" where
  "best_match matches =
     (case sort_key (\<lambda>x. - m_score x) matches of [] \<Rightarrow> None | b # _ \<Rightarrow> Some b)"

text \<open>The log row of a page routed to vendor \<open>v\<close> (lines 175 to 177).\<close>

definition routed_log :: "string \<Rightarrow> string \<Rightarrow> nat \<Rightarrow> string \<Rightarrow> match option \<Rightarrow> log_record" where
  "routed_log store_key pdf_name i v best =
     \<lparr>store = store_key, source_pdf = pdf_name, page_index = str_nat i, vendor = v,
      raw_token = (case best of None \<Rightarrow> [] | Some b \<Rightarrow> m_raw b),
      normalized = (case best of None \<Rightarrow> [] | Some b \<Rightarrow> m_nz b),
      anchor = (case best of None \<Rightarrow> [] | Some b \<Rightarrow> m_label b),
      log_method = (case best of None \<Rightarrow> [] | Some b \<Rightarrow> m_method b),
      confidence = (case best of None \<Rightarrow> ''0.00'' | Some b \<Rightarrow> format_2f (m_score b))\<rparr>"

text \<open>
  \<open>vendors = list({m[2] for m in matches})\<close>: the distinct vendors, in an order the
  program does not depend on (it reads the length, and the element when there is one).
\<close>

definition process_page :: "bool \<Rightarrow> (string \<rightharpoonup> string) \<Rightarrow> string \<Rightarrow> string \<Rightarrow> nat \<Rightarrow> extraction \<Rightarrow> state \<Rightarrow> state" where
  "process_page zs mapping store_key pdf_name i page st =
     (let text = page_text page;
          cands = extract_candidates (Some text);
          matches = page_matches zs mapping cands;
          vendors = remdups (map m_vendor matches)
      in if length vendors = 1 then
           (let v = hd vendors;
                best = best_match matches
            in st\<lparr>vendor_writers := add_page v (pdf_name, i) (ensure_writer v (vendor_writers st)),
                  logs := logs st @ [routed_log store_key pdf_name i v best]\<rparr>)
         else if 1 < length vendors then
           st\<lparr>mixed_files := mixed_files st @
                 [(error_path store_key ''mixed'' pdf_name i, (pdf_name, i))],
              logs := logs st @ [empty_log store_key pdf_name i ''MIXED'']\<rparr>
         else
           st\<lparr>unmatched_files := unmatched_files st @
                 [(error_path store_key ''unmatched'' pdf_name i, (pdf_name, i))],
              logs := logs st @ [empty_log store_key pdf_name i ''UNMATCHED'']\<rparr>)"

subsection \<open>The run (lines 91 to 193)\<close>

text \<open>
  A page of an opened PDF: what \<open>extract_text\<close> does on it, and whether the calls made
  for it outside any \<open>try\<close> succeed (reading the page object from \<open>reader.pages\<close>,
  \<open>add_page\<close>, \<open>open\<close> and \<open>write\<close>). When one of them raises, the exception ends
  the run: nothing after the loop is executed, and neither the vendor PDFs nor
  \<open>summary.csv\<close> are written. The outcome of such a run is \<open>RunAborted\<close>; the
  one-page files that it wrote before the exception are not part of that outcome.
\<close>

record page =
  page_extract :: extraction
  page_io_ok :: bool

text \<open>
  An uploaded PDF: its name and what \<open>PdfReader\<close> makes of it, \<open>None\<close> when the reader
  raises (the file is reported and skipped), otherwise the pages in order.
\<close>

record pdf =
  pdf_name :: string
  pdf_pages :: "page list option"








section \<open>Properties\<close>

subsection \<open>Characters\<close>

lemma code_inj: "code a = code b \<longleftrightarrow> a = b"
  by (simp add: code_def)

lemma code_lt: "code c < 256"
  by (simp add: code_def)

lemma code_upper_char:
  "code (upper_char c) =
     (if (97 \<le> code c \<and> code c \<le> 122) \<or> (224 \<le> code c \<and> code c \<le> 254 \<and> code c \<noteq> 247)
      then code c - 32 else code c)"
proof -
  have "code c - 32 < 256" using code_lt [of c] by arith
  then show ?thesis by (simp add: upper_char_def Let_def code_def)
qed

lemma code_zero: "code CHR ''0'' = 48" by (simp add: code_def)
lemma code_space: "code CHR '' '' = 32" by (simp add: code_def)
lemma code_dash: "code CHR ''-'' = 45" by (simp add: code_def)
lemma code_under: "code CHR ''_'' = 95" by (simp add: code_def)
lemma code_slash: "code CHR ''/'' = 47" by (simp add: code_def)
lemma code_lf: "code (CHR 0x0A) = 10" by (simp add: code_def)

lemma char_eq_code: "c = d \<longleftrightarrow> code c = code d"
  by (simp add: code_inj)

lemma upper_char_idem: "upper_char (upper_char c) = upper_char c"
  by (auto simp add: char_eq_code code_upper_char)

lemma upper_char_zero: "upper_char c = CHR ''0'' \<longleftrightarrow> c = CHR ''0''"
  by (auto simp add: char_eq_code code_upper_char code_zero)

lemma upper_char_zero_eq: "upper_char CHR ''0'' = CHR ''0''"
  by (simp add: upper_char_zero)

lemma isspace_space: "py_isspace CHR '' ''"
  by (simp add: py_isspace_def code_space)

lemma not_isspace_zero: "\<not> py_isspace CHR ''0''"
  by (simp add: py_isspace_def code_zero)

lemma isspace_lf: "py_isspace (CHR 0x0A)"
  by (simp add: py_isspace_def code_lf)

lemma not_key_sep_zero: "\<not> key_sep CHR ''0''"
  by (simp add: key_sep_def)

subsection \<open>Stripping and leading zeros\<close>

lemma dropWhile_id: "s = [] \<or> \<not> P (hd s) \<Longrightarrow> dropWhile P s = s"
  by (cases s) auto

lemma takeWhile_nil: "s = [] \<or> \<not> P (hd s) \<Longrightarrow> takeWhile P s = []"
  by (cases s) auto

lemma py_strip_id:
  assumes "s = [] \<or> (\<not> py_isspace (hd s) \<and> \<not> py_isspace (last s))"
  shows "py_strip s = s"
proof (cases "s = []")
  case True
  then show ?thesis by (simp add: py_strip_def)
next
  case False
  with assms have h: "\<not> py_isspace (hd s)" and l: "\<not> py_isspace (last s)" by auto
  have 1: "dropWhile py_isspace s = s" using h by (simp add: dropWhile_id)
  have "hd (rev s) = last s" using False by (simp add: hd_rev)
  then have 2: "dropWhile py_isspace (rev s) = rev s" using l by (simp add: dropWhile_id)
  show ?thesis by (simp add: py_strip_def 1 2)
qed

lemma py_strip_no_space:
  assumes "\<forall>c\<in>set s. \<not> py_isspace c"
  shows "py_strip s = s"
proof (rule py_strip_id)
  show "s = [] \<or> (\<not> py_isspace (hd s) \<and> \<not> py_isspace (last s))"
    using assms by (cases "s = []") auto
qed

lemma set_py_strip: "set (py_strip s) \<subseteq> set s"
proof
  fix x assume "x \<in> set (py_strip s)"
  then have "x \<in> set (dropWhile py_isspace (rev (dropWhile py_isspace s)))"
    by (simp add: py_strip_def)
  then have "x \<in> set (rev (dropWhile py_isspace s))" by (rule set_dropWhileD)
  then have "x \<in> set (dropWhile py_isspace s)" by simp
  then show "x \<in> set s" by (rule set_dropWhileD)
qed

lemma sub_leading_zeros_fixed:
  assumes "r = [] \<or> hd r \<noteq> CHR ''0''"
  shows "sub_leading_zeros r = r"
proof -
  have "takeWhile (\<lambda>c. c = CHR ''0'') r = []" using assms by (intro takeWhile_nil)
  moreover have "dropWhile (\<lambda>c. c = CHR ''0'') r = r" using assms by (intro dropWhile_id)
  ultimately show ?thesis by (simp add: sub_leading_zeros_def Let_def)
qed

lemma sub_leading_zeros_zero_cons:
  assumes "at_dollar r"
  shows "sub_leading_zeros (CHR ''0'' # r) = CHR ''0'' # r"
proof -
  have r: "r = [] \<or> hd r \<noteq> CHR ''0''" using assms by (auto simp add: at_dollar_def)
  have t: "takeWhile (\<lambda>c. c = CHR ''0'') r = []" using r by (intro takeWhile_nil)
  have d: "dropWhile (\<lambda>c. c = CHR ''0'') r = r" using r by (intro dropWhile_id)
  show ?thesis using assms by (simp add: sub_leading_zeros_def Let_def t d)
qed

lemma sub_leading_zeros_cases:
  "sub_leading_zeros s = s \<and> (s = [] \<or> hd s \<noteq> CHR ''0'')
   \<or> (\<exists>r. sub_leading_zeros s = CHR ''0'' # r \<and> at_dollar r \<and> CHR ''0'' \<in> set s \<and> set r \<subseteq> set s)
   \<or> (sub_leading_zeros s \<noteq> [] \<and> hd (sub_leading_zeros s) \<noteq> CHR ''0''
        \<and> set (sub_leading_zeros s) \<subseteq> set s)"
proof -
  let ?P = "\<lambda>c. c = CHR ''0''"
  let ?r = "dropWhile ?P s"
  have nz: "?r = [] \<or> hd ?r \<noteq> CHR ''0''" using hd_dropWhile [of ?P s] by blast
  have sub: "set ?r \<subseteq> set s" using set_dropWhileD by fast
  show ?thesis
  proof (cases "at_dollar ?r")
    case False
    then have "sub_leading_zeros s = ?r" by (simp add: sub_leading_zeros_def Let_def)
    moreover have "?r \<noteq> []" using False by (auto simp add: at_dollar_def)
    ultimately show ?thesis using nz sub by auto
  next
    case True
    show ?thesis
    proof (cases "takeWhile ?P s = []")
      case z: True
      then have 1: "sub_leading_zeros s = s" using True by (simp add: sub_leading_zeros_def Let_def)
      have "s = [] \<or> hd s \<noteq> CHR ''0''" using z by (cases s) (auto split: if_splits)
      then show ?thesis using 1 by blast
    next
      case z: False
      then have 1: "sub_leading_zeros s = CHR ''0'' # ?r"
        using True by (simp add: sub_leading_zeros_def Let_def)
      have "CHR ''0'' \<in> set s" using z by (cases s) (auto split: if_splits)
      then show ?thesis using 1 True sub by blast
    qed
  qed
qed

lemma set_sub_leading_zeros: "set (sub_leading_zeros s) \<subseteq> set s"
  using sub_leading_zeros_cases [of s] by auto

text \<open>A string with something after its zeros, or made of zeros only: one more leading
  zero changes nothing.\<close>

lemma sub_leading_zeros_more:
  assumes "s \<noteq> []" and "last s \<noteq> CHR 0x0A"
  shows "sub_leading_zeros (CHR ''0'' # s) = sub_leading_zeros s"
proof -
  let ?P = "\<lambda>c. c = CHR ''0''"
  let ?r = "dropWhile ?P s"
  have r: "?r \<noteq> [CHR 0x0A]"
  proof
    assume e: "?r = [CHR 0x0A]"
    have "s = takeWhile ?P s @ ?r" by simp
    then have "last s = last (takeWhile ?P s @ [CHR 0x0A])" using e by metis
    then show False using assms(2) by simp
  qed
  have z: "?r = [] \<Longrightarrow> takeWhile ?P s \<noteq> []"
    using assms(1) by (metis takeWhile_dropWhile_id append_Nil2)
  show ?thesis using r z by (auto simp add: sub_leading_zeros_def Let_def at_dollar_def)
qed

lemma sub_leading_zeros_replicate:
  assumes "s \<noteq> []" and "last s \<noteq> CHR 0x0A"
  shows "sub_leading_zeros (replicate n CHR ''0'' @ s) = sub_leading_zeros s"
proof (induction n)
  case 0
  show ?case by simp
next
  case (Suc n)
  have "replicate n CHR ''0'' @ s \<noteq> []" using assms(1) by simp
  moreover have "last (replicate n CHR ''0'' @ s) \<noteq> CHR 0x0A" using assms by simp
  ultimately have "sub_leading_zeros (CHR ''0'' # (replicate n CHR ''0'' @ s))
      = sub_leading_zeros (replicate n CHR ''0'' @ s)"
    by (rule sub_leading_zeros_more)
  then show ?case using Suc by simp
qed

subsection \<open>normalize\_key\<close>

lemma remove_all:
  "py_remove CHR ''/'' (py_remove CHR ''_'' (py_remove CHR ''-'' (py_remove CHR '' '' s)))
     = filter (\<lambda>c. \<not> key_sep c) s"
  by (induction s) (auto simp add: py_remove_def key_sep_def)

lemma normalize_key_alt:
  "normalize_key zs s =
     filter (\<lambda>c. \<not> key_sep c)
       (map upper_char (if zs then py_strip s else sub_leading_zeros (py_strip s)))"
  by (simp add: normalize_key_def Let_def remove_all py_upper_def)

text \<open>A key in normal form is left unchanged.\<close>

lemma normalize_key_fixed:
  assumes "\<forall>c\<in>set r. \<not> py_isspace c \<and> \<not> key_sep c \<and> upper_char c = c"
    and "zs \<or> sub_leading_zeros r = r"
  shows "normalize_key zs r = r"
proof -
  have s: "py_strip r = r" using assms(1) by (simp add: py_strip_no_space)
  have u: "map upper_char r = r" using assms(1) by (simp add: map_idI)
  have f: "filter (\<lambda>c. \<not> key_sep c) r = r" using assms(1) by simp
  show ?thesis using assms(2) by (auto simp add: normalize_key_alt s u f)
qed

lemma normalize_key_zeros:
  assumes "s \<noteq> []" and "\<forall>c\<in>set s. c = CHR ''0''"
  shows "normalize_key False s = ''0''"
proof -
  have "\<forall>c\<in>set s. \<not> py_isspace c" using assms(2) not_isspace_zero by metis
  then have s: "py_strip s = s" by (rule py_strip_no_space)
  have t: "takeWhile (\<lambda>c. c = CHR ''0'') s = s" using assms(2) by (simp add: takeWhile_eq_all_conv)
  have d: "dropWhile (\<lambda>c. c = CHR ''0'') s = []" using assms(2) by simp
  have "sub_leading_zeros s = ''0''"
    using assms(1) by (simp add: sub_leading_zeros_def Let_def t d at_dollar_def)
  then show ?thesis
    by (simp add: normalize_key_alt s upper_char_zero_eq not_key_sep_zero)
qed

lemma hd_py_strip:
  assumes "py_strip s \<noteq> []"
  shows "\<not> py_isspace (hd (py_strip s))"
proof -
  let ?d = "dropWhile py_isspace s"
  have "rev (takeWhile py_isspace (rev ?d) @ dropWhile py_isspace (rev ?d))
      = rev (dropWhile py_isspace (rev ?d)) @ rev (takeWhile py_isspace (rev ?d))"
    by (rule rev_append)
  moreover have "takeWhile py_isspace (rev ?d) @ dropWhile py_isspace (rev ?d) = rev ?d"
    by (rule takeWhile_dropWhile_id)
  ultimately have "rev (rev ?d)
      = rev (dropWhile py_isspace (rev ?d)) @ rev (takeWhile py_isspace (rev ?d))"
    by (simp only:)
  then have d: "?d = py_strip s @ rev (takeWhile py_isspace (rev ?d))"
    by (simp only: rev_rev_ident py_strip_def)
  have ne: "?d \<noteq> []"
  proof
    assume "?d = []"
    then have "py_strip s @ rev (takeWhile py_isspace (rev ?d)) = []" using d by (simp only:)
    then show False using assms by (simp only: append_is_Nil_conv) simp
  qed
  have "hd ?d = hd (py_strip s)" using d assms by (metis hd_append2)
  moreover have "\<not> py_isspace (hd ?d)" using ne by (rule hd_dropWhile)
  ultimately show ?thesis by simp
qed

lemma last_py_strip:
  assumes "py_strip s \<noteq> []"
  shows "\<not> py_isspace (last (py_strip s))"
proof -
  let ?x = "dropWhile py_isspace (rev (dropWhile py_isspace s))"
  have e: "py_strip s = rev ?x" by (simp add: py_strip_def)
  have ne: "?x \<noteq> []" using assms unfolding e by simp
  have "last (rev ?x) = hd ?x" using ne by (simp add: last_rev)
  moreover have "\<not> py_isspace (hd ?x)" using ne by (rule hd_dropWhile)
  ultimately show ?thesis unfolding e by simp
qed

lemma py_strip_fixed_iff:
  "py_strip s = s \<longleftrightarrow> s = [] \<or> (\<not> py_isspace (hd s) \<and> \<not> py_isspace (last s))"
proof
  assume e: "py_strip s = s"
  show "s = [] \<or> (\<not> py_isspace (hd s) \<and> \<not> py_isspace (last s))"
  proof (cases "s = []")
    case True
    then show ?thesis by simp
  next
    case False
    then have ne: "py_strip s \<noteq> []" using e by simp
    have "\<not> py_isspace (hd (py_strip s))" using ne by (rule hd_py_strip)
    moreover have "\<not> py_isspace (last (py_strip s))" using ne by (rule last_py_strip)
    ultimately show ?thesis unfolding e by simp
  qed
next
  assume "s = [] \<or> (\<not> py_isspace (hd s) \<and> \<not> py_isspace (last s))"
  then show "py_strip s = s" by (rule py_strip_id)
qed

lemma length_dropWhile_eq:
  assumes "length (dropWhile P xs) = length xs"
  shows "dropWhile P xs = xs"
proof (cases xs)
  case Nil
  then show ?thesis by simp
next
  case (Cons x ys)
  have "\<not> P x"
  proof
    assume "P x"
    then have "length (dropWhile P xs) = length (dropWhile P ys)" using Cons by simp
    moreover have "length (dropWhile P ys) \<le> length ys" by (rule length_dropWhile_le)
    ultimately show False using assms Cons by simp
  qed
  then show ?thesis using Cons by simp
qed

lemma length_py_strip: "length (py_strip s) \<le> length s"
proof -
  let ?d = "dropWhile py_isspace s"
  have "length (py_strip s) = length (dropWhile py_isspace (rev ?d))"
    by (simp add: py_strip_def)
  also have "\<dots> \<le> length (rev ?d)" by (rule length_dropWhile_le)
  also have "\<dots> = length ?d" by simp
  also have "\<dots> \<le> length s" by (rule length_dropWhile_le)
  finally show ?thesis .
qed

lemma py_strip_length_eq:
  assumes "length (py_strip s) = length s"
  shows "py_strip s = s"
proof -
  let ?d = "dropWhile py_isspace s"
  have 1: "length (py_strip s) = length (dropWhile py_isspace (rev ?d))"
    by (simp add: py_strip_def)
  have 2: "length (dropWhile py_isspace (rev ?d)) \<le> length (rev ?d)"
    by (rule length_dropWhile_le)
  have 3: "length ?d \<le> length s" by (rule length_dropWhile_le)
  have 4: "length (rev ?d) = length ?d" by simp
  have d: "length ?d = length s" using assms 1 2 3 4 by linarith
  have r: "length (dropWhile py_isspace (rev ?d)) = length (rev ?d)"
    using assms 1 2 3 4 by linarith
  have ds: "?d = s" using d by (rule length_dropWhile_eq)
  have "dropWhile py_isspace (rev ?d) = rev ?d" using r by (rule length_dropWhile_eq)
  then have "py_strip s = rev (rev ?d)" by (simp only: py_strip_def)
  then show ?thesis using ds by simp
qed

lemma length_sub_leading_zeros: "length (sub_leading_zeros s) \<le> length s"
proof -
  let ?P = "\<lambda>c. c = CHR ''0''"
  have "takeWhile ?P s @ dropWhile ?P s = s" by (rule takeWhile_dropWhile_id)
  then have "length (takeWhile ?P s @ dropWhile ?P s) = length s" by (simp only:)
  then have l: "length (takeWhile ?P s) + length (dropWhile ?P s) = length s"
    by (simp only: length_append)
  have z: "takeWhile ?P s \<noteq> [] \<Longrightarrow> Suc (length (dropWhile ?P s)) \<le> length s"
  proof -
    assume "takeWhile ?P s \<noteq> []"
    then have "0 < length (takeWhile ?P s)" by simp
    then show ?thesis using l by linarith
  qed
  have d: "length (dropWhile ?P s) \<le> length s" by (rule length_dropWhile_le)
  show ?thesis using z d by (simp add: sub_leading_zeros_def Let_def)
qed

lemma sub_leading_zeros_fixed_iff:
  "sub_leading_zeros s = s \<longleftrightarrow>
     s = [] \<or> hd s \<noteq> CHR ''0'' \<or> (\<exists>r. s = CHR ''0'' # r \<and> at_dollar r)"
proof
  assume "s = [] \<or> hd s \<noteq> CHR ''0'' \<or> (\<exists>r. s = CHR ''0'' # r \<and> at_dollar r)"
  then show "sub_leading_zeros s = s"
    using sub_leading_zeros_fixed [of s] sub_leading_zeros_zero_cons by blast
next
  assume e: "sub_leading_zeros s = s"
  show "s = [] \<or> hd s \<noteq> CHR ''0'' \<or> (\<exists>r. s = CHR ''0'' # r \<and> at_dollar r)"
  proof (rule ccontr)
    assume n: "\<not> (s = [] \<or> hd s \<noteq> CHR ''0'' \<or> (\<exists>r. s = CHR ''0'' # r \<and> at_dollar r))"
    then obtain r where s: "s = CHR ''0'' # r" by (cases s) auto
    have nr: "\<not> at_dollar r" using n s by blast
    let ?d = "dropWhile (\<lambda>c. c = CHR ''0'') r"
    have v: "sub_leading_zeros s = (if at_dollar ?d then CHR ''0'' # ?d else ?d)"
      unfolding s by (simp add: sub_leading_zeros_def Let_def)
    have le: "length ?d \<le> length r" by (rule length_dropWhile_le)
    show False
    proof (cases "at_dollar ?d")
      case True
      then have "CHR ''0'' # ?d = CHR ''0'' # r" using v e s by simp
      then have "?d = r" by simp
      then show False using True nr by simp
    next
      case False
      then have "?d = CHR ''0'' # r" using v e s by simp
      then have "length ?d = Suc (length r)" by simp
      then show False using le by simp
    qed
  qed
qed

subsection \<open>normalize\_key on its own result\<close>

lemma key_chars:
  "x \<in> set (normalize_key zs t) \<Longrightarrow> \<not> key_sep x \<and> upper_char x = x"
  by (auto simp add: normalize_key_alt upper_char_idem)

lemma normalize_key_on_key:
  assumes "\<forall>x\<in>set k. \<not> key_sep x \<and> upper_char x = x"
  shows "normalize_key zs k = (if zs then py_strip k else sub_leading_zeros (py_strip k))"
proof -
  let ?z = "if zs then py_strip k else sub_leading_zeros (py_strip k)"
  have "set ?z \<subseteq> set k"
    using set_py_strip [of k] set_sub_leading_zeros [of "py_strip k"] by auto
  then have c: "\<forall>x\<in>set ?z. \<not> key_sep x \<and> upper_char x = x" using assms by blast
  have u: "map upper_char ?z = ?z" using c by (simp add: map_idI)
  have f: "filter (\<lambda>c. \<not> key_sep c) ?z = ?z" using c by simp
  have "normalize_key zs k = filter (\<lambda>c. \<not> key_sep c) (map upper_char ?z)"
    by (simp add: normalize_key_alt)
  then show ?thesis using u f by simp
qed

lemma normalize_key_idem_iff:
  fixes zs :: bool and t :: string
  defines "k \<equiv> normalize_key zs t"
  shows "normalize_key zs k = k \<longleftrightarrow>
           k = [] \<or> (\<not> py_isspace (hd k) \<and> \<not> py_isspace (last k)
                     \<and> (zs \<or> hd k \<noteq> CHR ''0'' \<or> k = ''0''))"
proof -
  have kc: "\<forall>x\<in>set k. \<not> key_sep x \<and> upper_char x = x"
    unfolding k_def using key_chars by blast
  have nk: "normalize_key zs k = (if zs then py_strip k else sub_leading_zeros (py_strip k))"
    using kc by (rule normalize_key_on_key)
  show ?thesis
  proof
    assume c: "k = [] \<or> (\<not> py_isspace (hd k) \<and> \<not> py_isspace (last k)
                     \<and> (zs \<or> hd k \<noteq> CHR ''0'' \<or> k = ''0''))"
    then have s: "py_strip k = k" using py_strip_fixed_iff [of k] by blast
    have "zs \<or> sub_leading_zeros k = k"
    proof (cases zs)
      case True
      then show ?thesis by simp
    next
      case False
      then have "k = [] \<or> hd k \<noteq> CHR ''0'' \<or> k = ''0''" using c by blast
      then have "k = [] \<or> hd k \<noteq> CHR ''0'' \<or> (\<exists>r. k = CHR ''0'' # r \<and> at_dollar r)"
        by (auto simp add: at_dollar_def)
      then show ?thesis using sub_leading_zeros_fixed_iff [of k] by blast
    qed
    then show "normalize_key zs k = k" using nk s by auto
  next
    assume e: "normalize_key zs k = k"
    have l1: "length (py_strip k) \<le> length k" by (rule length_py_strip)
    have l2: "length (sub_leading_zeros (py_strip k)) \<le> length (py_strip k)"
      by (rule length_sub_leading_zeros)
    have "length (if zs then py_strip k else sub_leading_zeros (py_strip k)) = length k"
      using nk e by simp
    then have "length (py_strip k) = length k" using l1 l2 by (cases zs) simp_all
    then have s: "py_strip k = k" by (rule py_strip_length_eq)
    have z: "zs \<or> sub_leading_zeros k = k" using nk e s by (cases zs) simp_all
    show "k = [] \<or> (\<not> py_isspace (hd k) \<and> \<not> py_isspace (last k)
                     \<and> (zs \<or> hd k \<noteq> CHR ''0'' \<or> k = ''0''))"
    proof (cases "k = []")
      case True
      then show ?thesis by simp
    next
      case False
      then have ws: "\<not> py_isspace (hd k)" "\<not> py_isspace (last k)"
        using s py_strip_fixed_iff [of k] by blast+
      have "zs \<or> hd k \<noteq> CHR ''0'' \<or> k = ''0''"
      proof (cases zs)
        case True
        then show ?thesis by simp
      next
        case nz: False
        then have "sub_leading_zeros k = k" using z by simp
        then have "hd k \<noteq> CHR ''0'' \<or> (\<exists>r. k = CHR ''0'' # r \<and> at_dollar r)"
          using sub_leading_zeros_fixed_iff [of k] False by blast
        then show ?thesis
        proof
          assume "hd k \<noteq> CHR ''0''"
          then show ?thesis by simp
        next
          assume "\<exists>r. k = CHR ''0'' # r \<and> at_dollar r"
          then obtain r where r: "k = CHR ''0'' # r" "at_dollar r" by blast
          have "r \<noteq> [CHR 0x0A]"
          proof
            assume "r = [CHR 0x0A]"
            then have "last k = CHR 0x0A" using r(1) by simp
            then show False using ws(2) isspace_lf by simp
          qed
          then have "r = []" using r(2) by (simp add: at_dollar_def)
          then show ?thesis using r(1) by simp
        qed
      qed
      then show ?thesis using ws by blast
    qed
  qed
qed

subsection \<open>Leading zeros of a token\<close>

lemma py_strip_leading_zeros:
  assumes "t \<noteq> []" and "\<not> py_isspace (hd t)"
  shows "py_strip (replicate n CHR ''0'' @ t) = replicate n CHR ''0'' @ py_strip t"
    and "py_strip t \<noteq> []"
proof -
  let ?z = "replicate n CHR ''0''"
  have a: "dropWhile py_isspace t = t" using assms by (simp add: dropWhile_id)
  have st: "py_strip t = rev (dropWhile py_isspace (rev t))"
    by (simp add: py_strip_def a)
  have h: "hd t \<in> set (rev t)" using assms(1) by simp
  have ne: "dropWhile py_isspace (rev t) \<noteq> []"
    using h assms(2) by (auto simp add: dropWhile_eq_Nil_conv)
  show "py_strip t \<noteq> []" using ne st by simp
  have "hd (?z @ t) = (if n = 0 then hd t else CHR ''0'')" by (cases n) auto
  then have "\<not> py_isspace (hd (?z @ t))" using assms(2) by (simp add: not_isspace_zero)
  then have b: "dropWhile py_isspace (?z @ t) = ?z @ t" by (simp add: dropWhile_id)
  have c: "dropWhile py_isspace (rev t @ ?z) = dropWhile py_isspace (rev t) @ ?z"
    using h assms(2) by (rule dropWhile_append1)
  have "py_strip (?z @ t) = rev (dropWhile py_isspace (rev (?z @ t)))"
    by (simp only: py_strip_def b)
  also have "\<dots> = rev (dropWhile py_isspace (rev t @ ?z))" by simp
  also have "\<dots> = rev (dropWhile py_isspace (rev t) @ ?z)" by (simp only: c)
  also have "\<dots> = ?z @ rev (dropWhile py_isspace (rev t))" by simp
  finally show "py_strip (?z @ t) = ?z @ py_strip t" by (simp only: st)
qed

lemma normalize_key_drops_zeros:
  assumes "t \<noteq> []" and "\<not> py_isspace (hd t)"
  shows "normalize_key False (replicate n CHR ''0'' @ t) = normalize_key False t"
proof -
  have ne: "py_strip t \<noteq> []" using assms by (rule py_strip_leading_zeros(2))
  have "\<not> py_isspace (last (py_strip t))" using ne by (rule last_py_strip)
  then have l: "last (py_strip t) \<noteq> CHR 0x0A" using isspace_lf by metis
  have 1: "py_strip (replicate n CHR ''0'' @ t) = replicate n CHR ''0'' @ py_strip t"
    using assms by (rule py_strip_leading_zeros(1))
  show ?thesis
    by (simp add: normalize_key_alt 1 sub_leading_zeros_replicate [OF ne l])
qed

lemma normalize_key_keeps_zeros:
  assumes "t \<noteq> []" and "\<not> py_isspace (hd t)"
  shows "normalize_key True (replicate n CHR ''0'' @ t) = replicate n CHR ''0'' @ normalize_key True t"
proof -
  have 1: "py_strip (replicate n CHR ''0'' @ t) = replicate n CHR ''0'' @ py_strip t"
    using assms by (rule py_strip_leading_zeros(1))
  show ?thesis
    by (simp add: normalize_key_alt 1 upper_char_zero_eq not_key_sep_zero)
qed

subsection \<open>The scan of the anchor patterns\<close>

text \<open>
  A match never ends before its start, and a match of group 2 consumes at least one
  character: \<open>finditer\<close> on an anchor pattern always goes on where the match ended.
\<close>

lemma ends_le: "y \<in> set (ends r x) \<Longrightarrow> length (snd y) \<le> length (snd x)"
proof (induction r x arbitrary: y rule: ends.induct)
  case (1 x)
  then show ?case by simp
next
  case (2 p prev s)
  then show ?case by (cases s) (auto split: if_splits)
next
  case (3 a b x)
  from "3.prems" obtain z where z: "z \<in> set (ends a x)" "y \<in> set (ends b z)" by auto
  have "length (snd z) \<le> length (snd x)" using z(1) by (rule "3.IH"(1))
  moreover have "length (snd y) \<le> length (snd z)" using z by (rule "3.IH"(2))
  ultimately show ?case by simp
next
  case (4 a b x)
  from "4.prems" have "y \<in> set (ends a x) \<or> y \<in> set (ends b x)" by auto
  then show ?case using "4.IH" by blast
next
  case (5 a x)
  from "5.prems" have "y \<in> set (ends a x) \<or> y = x" by auto
  then show ?case using "5.IH" by blast
next
  case (6 p prev s)
  show ?case
  proof (cases s)
    case Nil
    then show ?thesis using "6.prems" by simp
  next
    case (Cons c cs)
    show ?thesis
    proof (cases "p c")
      case True
      have e: "ends (Star p) (prev, s) = ends (Star p) (Some c, cs) @ [(prev, s)]"
        using Cons True by (subst ends.simps(6)) (simp del: ends.simps)
      have "y \<in> set (ends (Star p) (Some c, cs)) \<or> y = (prev, s)"
        using "6.prems" unfolding e by (auto simp del: ends.simps)
      then show ?thesis
      proof
        assume "y \<in> set (ends (Star p) (Some c, cs))"
        then have "length (snd y) \<le> length (snd (Some c, cs))"
          using Cons True by (rule "6.IH" [rotated -1])
        then show ?thesis using Cons by simp
      next
        assume "y = (prev, s)"
        then show ?thesis by simp
      qed
    next
      case False
      have "ends (Star p) (prev, s) = [(prev, s)]"
        using Cons False by (subst ends.simps(6)) (simp del: ends.simps)
      then show ?thesis using "6.prems" by (simp del: ends.simps)
    qed
  qed
next
  case (7 x)
  then show ?case by (simp split: if_splits)
qed

lemma ends_token_rx: "y \<in> set (ends token_rx x) \<Longrightarrow> length (snd y) < length (snd x)"
proof -
  assume y: "y \<in> set (ends token_rx x)"
  let ?rest = "Seq (Cls tok_char) (Seq (Cls tok_char) (Star tok_char))"
  from y obtain z where z: "z \<in> set (ends (Cls is_alnum) x)" "y \<in> set (ends ?rest z)"
    by (auto simp add: token_rx_def)
  have "length (snd z) < length (snd x)"
    using z(1) by (cases x; cases "snd x") (auto split: if_splits)
  moreover have "length (snd y) \<le> length (snd z)" using z(2) by (rule ends_le)
  ultimately show ?thesis by simp
qed

lemma match_at_token_rx:
  assumes "match_at g1 token_rx x = Some (tok, y)"
  shows "length (snd y) < length (snd x)"
proof -
  let ?all = "concat (map (\<lambda>y. map (\<lambda>z. (y, z)) (ends token_rx y)) (ends g1 x))"
  from assms obtain w rest where a: "?all = (w, y) # rest"
    by (auto simp add: match_at_def split: list.splits)
  then have "(w, y) \<in> set ?all" by simp
  then have w: "w \<in> set (ends g1 x)" "y \<in> set (ends token_rx w)" by auto
  have "length (snd y) < length (snd w)" using w(2) by (rule ends_token_rx)
  moreover have "length (snd w) \<le> length (snd x)" using w(1) by (rule ends_le)
  ultimately show ?thesis by simp
qed

lemma anchor_patterns_group2: "\<forall>p\<in>set ANCHOR_PATTERNS. fst (snd p) = token_rx"
  by (simp add: ANCHOR_PATTERNS_def)

lemma finditer_token_rx:
  "finditer g1 token_rx (prev, s) =
     (case match_at g1 token_rx (prev, s) of
        None \<Rightarrow> (case s of [] \<Rightarrow> [] | c # cs \<Rightarrow> finditer g1 token_rx (Some c, cs))
      | Some (tok, y) \<Rightarrow> tok # finditer g1 token_rx y)"
proof (cases "match_at g1 token_rx (prev, s)")
  case None
  then show ?thesis by simp
next
  case (Some m)
  obtain tok prev' rest where m: "m = (tok, (prev', rest))" by (cases m) auto
  have "length rest < length s"
    using match_at_token_rx [of g1 "(prev, s)" tok "(prev', rest)"] Some m by simp
  then show ?thesis using Some m by simp
qed

subsection \<open>Matches and the best match\<close>

lemma anchor_order_eq: "anchor_order = [''Model'', ''Item'', ''Internet'', ''SKU'']"
  by (simp add: anchor_order_def ANCHOR_PATTERNS_def)

lemma anchor_score_index:
  "py_index anchor_order l \<le> 4 \<and>
   anchor_score l = (if py_index anchor_order l < 4
                     then 1 - (1 / 10) * of_nat (py_index anchor_order l) else 1 / 2)"
  by (simp add: anchor_score_def anchor_order_eq)

lemma anchor_score_antimono:
  assumes "anchor_score a \<le> anchor_score b"
  shows "py_index anchor_order b \<le> py_index anchor_order a"
proof -
  let ?i = "py_index anchor_order a" and ?j = "py_index anchor_order b"
  have a: "?i \<le> 4" "anchor_score a = (if ?i < 4 then 1 - (1 / 10) * of_nat ?i else 1 / 2)"
    using anchor_score_index [of a] by auto
  have b: "?j \<le> 4" "anchor_score b = (if ?j < 4 then 1 - (1 / 10) * of_nat ?j else 1 / 2)"
    using anchor_score_index [of b] by auto
  show ?thesis
  proof (rule ccontr)
    assume "\<not> ?j \<le> ?i"
    then have lt: "?i < ?j" by simp
    then have i4: "?i < 4" using b(1) by simp
    have "anchor_score b < anchor_score a"
    proof (cases "?j < 4")
      case True
      have "(of_nat ?i :: rat) < of_nat ?j" using lt by simp
      then show ?thesis using a(2) b(2) i4 True by simp
    next
      case False
      have "(of_nat ?i :: rat) \<le> 3" using i4 by (simp add: of_nat_le_iff [of ?i 3, where 'a = rat, simplified])
      then show ?thesis using a(2) b(2) i4 False by simp
    qed
    then show False using assms by simp
  qed
qed

lemma page_matches_survivors:
  "map (\<lambda>m. (m_label m, m_raw m)) (page_matches zs mapping cands)
     = filter (\<lambda>c. mapping (normalize_key zs (snd c)) \<noteq> None) cands"
  by (induction cands) (auto simp add: Let_def split: option.splits)

lemma page_matches_fields:
  "m \<in> set (page_matches zs mapping cands) \<Longrightarrow>
     m_nz m = normalize_key zs (m_raw m) \<and> mapping (m_nz m) = Some (m_vendor m)
     \<and> m_method m = ''native'' \<and> m_score m = anchor_score (m_label m)
     \<and> (m_label m, m_raw m) \<in> set cands"
  by (induction cands) (auto simp add: Let_def split: option.splits)

lemma best_match_Nil: "best_match [] = None"
  by (simp add: best_match_def)

lemma best_match_first_highest:
  assumes "ms \<noteq> []"
  shows "\<exists>b pre post. best_match ms = Some b \<and> ms = pre @ b # post
           \<and> (\<forall>m\<in>set pre. m_score m < m_score b) \<and> (\<forall>m\<in>set post. m_score m \<le> m_score b)"
proof -
  let ?f = "\<lambda>x. - m_score x"
  let ?s = "sort_key ?f ms"
  have ne: "?s \<noteq> []" using assms by (metis length_sort list.size(3) length_0_conv)
  then obtain b rest where s: "?s = b # rest" by (cases ?s) auto
  have bm: "best_match ms = Some b" by (simp add: best_match_def s)
  have srt: "sorted (map ?f ?s)" by (rule sorted_sort_key)
  have low: "\<forall>m\<in>set ms. ?f b \<le> ?f m"
  proof
    fix m assume "m \<in> set ms"
    then have "m \<in> set ?s" by simp
    then show "?f b \<le> ?f m" using srt unfolding s by auto
  qed
  have "filter (\<lambda>y. ?f y = ?f b) ?s = filter (\<lambda>y. ?f y = ?f b) ms"
    by (rule sort_key_stable)
  then have "filter (\<lambda>y. ?f y = ?f b) ms = b # filter (\<lambda>y. ?f y = ?f b) rest"
    by (simp add: s)
  then obtain pre post where p: "ms = pre @ b # post" "\<forall>u\<in>set pre. ?f u \<noteq> ?f b"
    unfolding filter_eq_Cons_iff by blast
  have "\<forall>m\<in>set pre. m_score m < m_score b"
  proof
    fix m assume m: "m \<in> set pre"
    then have "?f b \<le> ?f m" using low p(1) by auto
    moreover have "?f m \<noteq> ?f b" using p(2) m by blast
    ultimately show "m_score m < m_score b" by simp
  qed
  moreover have "\<forall>m\<in>set post. m_score m \<le> m_score b"
    using low p(1) by auto
  ultimately show ?thesis using bm p(1) by blast
qed

subsection \<open>The three outcomes of a page\<close>

lemma remdups_single: "set xs = {v} \<Longrightarrow> remdups xs = [v]"
proof -
  assume s: "set xs = {v}"
  have "length (remdups xs) = 1" using s by (simp add: length_remdups_card_conv)
  then obtain a where a: "remdups xs = [a]"
    by (cases "remdups xs") auto
  then have "set (remdups xs) = {a}" by simp
  then have "a = v" using s by simp
  then show ?thesis using a by simp
qed

lemma process_page_unmatched:
  assumes "set (map m_vendor (page_matches zs mapping (extract_candidates (Some (page_text page))))) = {}"
  shows "process_page zs mapping store_key nm i page st =
           st\<lparr>unmatched_files := unmatched_files st @
                 [(error_path store_key ''unmatched'' nm i, (nm, i))],
              logs := logs st @ [empty_log store_key nm i ''UNMATCHED'']\<rparr>"
  using assms by (simp add: process_page_def Let_def)

lemma process_page_routed:
  assumes "set (map m_vendor (page_matches zs mapping (extract_candidates (Some (page_text page))))) = {v}"
  shows "process_page zs mapping store_key nm i page st =
           st\<lparr>vendor_writers := add_page v (nm, i) (ensure_writer v (vendor_writers st)),
              logs := logs st @ [routed_log store_key nm i v
                (best_match (page_matches zs mapping (extract_candidates (Some (page_text page)))))]\<rparr>"
proof -
  have "remdups (map m_vendor (page_matches zs mapping (extract_candidates (Some (page_text page))))) = [v]"
    using assms by (rule remdups_single)
  then show ?thesis by (simp add: process_page_def Let_def)
qed

lemma process_page_mixed:
  assumes "2 \<le> card (set (map m_vendor (page_matches zs mapping (extract_candidates (Some (page_text page))))))"
  shows "process_page zs mapping store_key nm i page st =
           st\<lparr>mixed_files := mixed_files st @
                 [(error_path store_key ''mixed'' nm i, (nm, i))],
              logs := logs st @ [empty_log store_key nm i ''MIXED'']\<rparr>"
proof -
  have "2 \<le> length (remdups (map m_vendor (page_matches zs mapping (extract_candidates (Some (page_text page))))))"
    using assms by (simp add: length_remdups_card_conv)
  then show ?thesis by (simp add: process_page_def Let_def)
qed

lemma card_one_single: "card (set xs) = 1 \<Longrightarrow> \<exists>v. set xs = {v}"
  by (metis card_1_singletonE)

lemma card_zero_empty: "card (set xs) = 0 \<Longrightarrow> set xs = {}"
  by simp

subsection \<open>Claims about normalize\_key\<close>

text \<open>
  C3 (as amended). For every raw token and either setting, let \<open>k\<close> be the key that
  \<open>normalize_key\<close> gives. Normalizing \<open>k\<close> gives \<open>k\<close> again exactly when \<open>k\<close> is
  empty, or \<open>k\<close> neither begins nor ends with a whitespace character and, when leading
  zeros are stripped, \<open>k\<close> does not begin with \<open>0\<close> unless \<open>k\<close> is the key \<open>0\<close>.
\<close>

theorem normalize_key_idempotent_amended:
  "normalize_key zs (normalize_key zs t) = normalize_key zs t \<longleftrightarrow>
     normalize_key zs t = []
     \<or> (\<not> py_isspace (hd (normalize_key zs t)) \<and> \<not> py_isspace (last (normalize_key zs t))
        \<and> (zs \<or> hd (normalize_key zs t) \<noteq> CHR ''0'' \<or> normalize_key zs t = ''0''))"
  by (rule normalize_key_idem_iff)

text \<open>
  A token with a leading zero and a separator, zeros stripped; a token with a space and a
  separator, zeros kept; and the token \<open>-01\<close>, zeros stripped, whose key \<open>01\<close> begins
  with a zero.
\<close>

theorem normalize_key_idempotent_amended_witness:
  "normalize_key False (normalize_key False ''0123-456'') = normalize_key False ''0123-456''
   \<and> normalize_key True (normalize_key True ''a -b'') = normalize_key True ''a -b''
   \<and> normalize_key False (normalize_key False ''-01'') \<noteq> normalize_key False ''-01''"
proof (intro conjI)
  have k: "normalize_key False ''0123-456'' = ''123456''" by code_simp
  have "normalize_key False ''0123-456'' = []
     \<or> (\<not> py_isspace (hd (normalize_key False ''0123-456''))
        \<and> \<not> py_isspace (last (normalize_key False ''0123-456''))
        \<and> (False \<or> hd (normalize_key False ''0123-456'') \<noteq> CHR ''0''
            \<or> normalize_key False ''0123-456'' = ''0''))"
    unfolding k by (simp add: py_isspace_def code_def)
  then show "normalize_key False (normalize_key False ''0123-456'')
      = normalize_key False ''0123-456''"
    using normalize_key_idempotent_amended [of False "''0123-456''"] by blast
next
  have k: "normalize_key True ''a -b'' = ''AB''" by code_simp
  have "normalize_key True ''a -b'' = []
     \<or> (\<not> py_isspace (hd (normalize_key True ''a -b''))
        \<and> \<not> py_isspace (last (normalize_key True ''a -b''))
        \<and> (True \<or> hd (normalize_key True ''a -b'') \<noteq> CHR ''0''
            \<or> normalize_key True ''a -b'' = ''0''))"
    unfolding k by (simp add: py_isspace_def code_def)
  then show "normalize_key True (normalize_key True ''a -b'') = normalize_key True ''a -b''"
    using normalize_key_idempotent_amended [of True "''a -b''"] by blast
next
  have k: "normalize_key False ''-01'' = ''01''" by code_simp
  have "\<not> (normalize_key False ''-01'' = []
     \<or> (\<not> py_isspace (hd (normalize_key False ''-01''))
        \<and> \<not> py_isspace (last (normalize_key False ''-01''))
        \<and> (False \<or> hd (normalize_key False ''-01'') \<noteq> CHR ''0''
            \<or> normalize_key False ''-01'' = ''0'')))"
    unfolding k by simp
  then show "normalize_key False (normalize_key False ''-01'') \<noteq> normalize_key False ''-01''"
    using normalize_key_idempotent_amended [of False "''-01''"] by blast
qed

text \<open>
  C3 as stated fails for both settings: with leading zeros stripped, \<open>-01\<close> normalizes to
  \<open>01\<close> and that to \<open>1\<close>; with leading zeros kept, a hyphen, a tab and \<open>A\<close> normalize to
  the tab and \<open>A\<close>, and that to \<open>A\<close>.
\<close>

theorem normalize_key_not_idempotent:
  "normalize_key False (normalize_key False ''-01'') \<noteq> normalize_key False ''-01''
   \<and> normalize_key True (normalize_key True [CHR ''-'', CHR 0x09, CHR ''A''])
       \<noteq> normalize_key True [CHR ''-'', CHR 0x09, CHR ''A'']"
  by code_simp

text \<open>
  C4 (as amended). The one setting is \<open>ZERO_SIGNIFICANT\<close>, false by default. For a
  non-empty token that does not begin with a whitespace character: under the default,
  zeros put in front of the token do not change its key (leading zeros are dropped before
  keys are compared); when the setting is true, they stay in front of the key.
\<close>

theorem zero_significant_default_drops_zeros:
  "ZERO_SIGNIFICANT_default = False
   \<and> (t \<noteq> [] \<and> \<not> py_isspace (hd t) \<longrightarrow>
        normalize_key ZERO_SIGNIFICANT_default (replicate n CHR ''0'' @ t)
          = normalize_key ZERO_SIGNIFICANT_default t
        \<and> normalize_key True (replicate n CHR ''0'' @ t)
          = replicate n CHR ''0'' @ normalize_key True t)"
  by (simp add: ZERO_SIGNIFICANT_default_def normalize_key_drops_zeros normalize_key_keeps_zeros)

theorem zero_significant_default_drops_zeros_witness:
  "normalize_key ZERO_SIGNIFICANT_default (replicate 2 CHR ''0'' @ ''7a '')
     = normalize_key ZERO_SIGNIFICANT_default ''7a ''
   \<and> normalize_key True (replicate 2 CHR ''0'' @ ''7a '')
     = replicate 2 CHR ''0'' @ normalize_key True ''7a ''"
proof -
  have h: "''7a '' \<noteq> [] \<and> \<not> py_isspace (hd ''7a '')"
    by (simp add: py_isspace_def code_def)
  show ?thesis
    using h zero_significant_default_drops_zeros [of "''7a ''" 2] by blast
qed

text \<open>
  C4 as stated fails: under the default setting the leading zeros of \<open>007\<close> are dropped,
  and with the setting true they are kept.
\<close>

theorem default_setting_strips_zeros:
  "normalize_key ZERO_SIGNIFICANT_default ''007'' = ''7''
   \<and> normalize_key ZERO_SIGNIFICANT_default ''007'' \<noteq> ''007''
   \<and> normalize_key True ''007'' = ''007''"
  by code_simp

text \<open>
  C7. With leading zeros stripped (\<open>ZERO_SIGNIFICANT\<close> false), a non-empty token made of
  zeros only normalizes to the one-character key \<open>0\<close>, never to the empty string.
\<close>

theorem all_zero_token_keeps_one_zero:
  "s \<noteq> [] \<Longrightarrow> \<forall>c\<in>set s. c = CHR ''0'' \<Longrightarrow>
     normalize_key False s = ''0'' \<and> normalize_key False s \<noteq> []"
  by (simp add: normalize_key_zeros)

theorem all_zero_token_keeps_one_zero_witness:
  "normalize_key False ''0000'' = ''0'' \<and> normalize_key False ''0000'' \<noteq> []"
proof -
  have h1: "''0000'' \<noteq> []" by simp
  have h2: "\<forall>c\<in>set ''0000''. c = CHR ''0''" by simp
  show ?thesis using all_zero_token_keeps_one_zero [OF h1 h2] by simp
qed

subsection \<open>Evaluations\<close>

lemma extract_sku_a12: "extract_candidates (Some ''SKU: A12'') = [(''SKU'', ''A12'')]"
  by code_simp

lemma extract_sku_zero: "extract_candidates (Some ''SKU: 0--'') = [(''SKU'', ''0--'')]"
  by code_simp

lemma extract_model_item:
  "extract_candidates (Some ''Model #: ABC-123 Item# XYZ999'')
     = [(''Model'', ''ABC-123''), (''Item'', ''XYZ999'')]"
  by code_simp

lemma extract_item_sku:
  "extract_candidates (Some ''Item# XYZ999 SKU: A12'')
     = [(''Item'', ''XYZ999''), (''SKU'', ''A12'')]"
  by code_simp

lemma normalize_a12: "normalize_key False ''A12'' = ''A12''"
  by code_simp

lemma normalize_abc: "normalize_key zs ''ABC-123'' = ''ABC123''"
proof (cases zs)
  case True
  have "normalize_key True ''ABC-123'' = ''ABC123''" by code_simp
  then show ?thesis using True by simp
next
  case False
  have "normalize_key False ''ABC-123'' = ''ABC123''" by code_simp
  then show ?thesis using False by simp
qed

lemma normalize_xyz: "normalize_key zs ''XYZ999'' = ''XYZ999''"
proof (cases zs)
  case True
  have "normalize_key True ''XYZ999'' = ''XYZ999''" by code_simp
  then show ?thesis using True by simp
next
  case False
  have "normalize_key False ''XYZ999'' = ''XYZ999''" by code_simp
  then show ?thesis using False by simp
qed

lemma normalize_dashes: "normalize_key zs ''---'' = []"
proof (cases zs)
  case True
  have "normalize_key True ''---'' = []" by code_simp
  then show ?thesis using True by simp
next
  case False
  have "normalize_key False ''---'' = []" by code_simp
  then show ?thesis using False by simp
qed

lemma normalize_zero_dashes: "normalize_key False ''0--'' = []"
  by code_simp

lemma py_strip_examples:
  "py_strip ''Acme'' = ''Acme''" "py_strip ''---'' = ''---''" "py_strip ''nan'' = ''nan''"
  "py_strip ''QQQ'' = ''QQQ''" "py_strip ''A12'' = ''A12''"
  by code_simp+

lemma format_scores:
  "format_2f 1 = ''1.00''" "format_2f (9 / 10) = ''0.90''" "format_2f (4 / 5) = ''0.80''"
  "format_2f (7 / 10) = ''0.70''" "format_2f (1 / 2) = ''0.50''"
  by code_simp+

lemma anchor_scores:
  "anchor_score ''Model'' = 1" "anchor_score ''Item'' = 9 / 10"
  "anchor_score ''Internet'' = 4 / 5" "anchor_score ''SKU'' = 7 / 10"
  by (simp_all add: anchor_score_def anchor_order_eq)

subsection \<open>Claims about the classification of a page\<close>

text \<open>
  C1. The matches of a page are its candidates whose normalized key is in the mapping,
  each with the vendor stored under that key. The number of distinct vendors among them
  decides the page: none, and the page is written to \<open>errors/unmatched\<close> and logged as
  UNMATCHED; exactly one, and the page is added to that vendor's writer and logged under
  that vendor; two or more, and the page is written to \<open>errors/mixed\<close> and logged as
  MIXED, and no vendor's writer changes.
\<close>

theorem decision_by_distinct_vendors:
  fixes zs :: bool and mapping :: "string \<rightharpoonup> string" and store_key nm :: string
    and i :: nat and page :: extraction and st :: state
  defines "cands \<equiv> extract_candidates (Some (page_text page))"
  defines "ms \<equiv> page_matches zs mapping cands"
  defines "st' \<equiv> process_page zs mapping store_key nm i page st"
  shows
    "map (\<lambda>m. (m_label m, m_raw m)) ms
        = filter (\<lambda>c. mapping (normalize_key zs (snd c)) \<noteq> None) cands
     \<and> (\<forall>m\<in>set ms. mapping (normalize_key zs (m_raw m)) = Some (m_vendor m))
     \<and> (card (set (map m_vendor ms)) = 0 \<longrightarrow>
          st' = st\<lparr>unmatched_files := unmatched_files st @
                      [(error_path store_key ''unmatched'' nm i, (nm, i))],
                   logs := logs st @ [empty_log store_key nm i ''UNMATCHED'']\<rparr>)
     \<and> (card (set (map m_vendor ms)) = 1 \<longrightarrow>
          (\<exists>v. set (map m_vendor ms) = {v}
             \<and> st' = st\<lparr>vendor_writers :=
                          add_page v (nm, i) (ensure_writer v (vendor_writers st)),
                        logs := logs st @ [routed_log store_key nm i v (best_match ms)]\<rparr>
             \<and> vendor (last (logs st')) = v))
     \<and> (2 \<le> card (set (map m_vendor ms)) \<longrightarrow>
          st' = st\<lparr>mixed_files := mixed_files st @
                      [(error_path store_key ''mixed'' nm i, (nm, i))],
                   logs := logs st @ [empty_log store_key nm i ''MIXED'']\<rparr>
          \<and> vendor_writers st' = vendor_writers st)"
proof (intro conjI impI)
  show "map (\<lambda>m. (m_label m, m_raw m)) ms
        = filter (\<lambda>c. mapping (normalize_key zs (snd c)) \<noteq> None) cands"
    unfolding ms_def by (rule page_matches_survivors)
  show "\<forall>m\<in>set ms. mapping (normalize_key zs (m_raw m)) = Some (m_vendor m)"
    unfolding ms_def using page_matches_fields by metis
next
  assume "card (set (map m_vendor ms)) = 0"
  then have "set (map m_vendor ms) = {}" by simp
  then show "st' = st\<lparr>unmatched_files := unmatched_files st @
                      [(error_path store_key ''unmatched'' nm i, (nm, i))],
                   logs := logs st @ [empty_log store_key nm i ''UNMATCHED'']\<rparr>"
    unfolding st'_def ms_def cands_def by (rule process_page_unmatched)
next
  assume "card (set (map m_vendor ms)) = 1"
  then obtain v where v: "set (map m_vendor ms) = {v}" using card_one_single by blast
  have r: "st' = st\<lparr>vendor_writers := add_page v (nm, i) (ensure_writer v (vendor_writers st)),
                    logs := logs st @ [routed_log store_key nm i v (best_match ms)]\<rparr>"
    using v unfolding st'_def ms_def cands_def by (rule process_page_routed)
  have "vendor (last (logs st')) = v" by (simp add: r routed_log_def)
  then show "\<exists>v. set (map m_vendor ms) = {v}
             \<and> st' = st\<lparr>vendor_writers :=
                          add_page v (nm, i) (ensure_writer v (vendor_writers st)),
                        logs := logs st @ [routed_log store_key nm i v (best_match ms)]\<rparr>
             \<and> vendor (last (logs st')) = v"
    using v r by blast
next
  assume h: "2 \<le> card (set (map m_vendor ms))"
  show m: "st' = st\<lparr>mixed_files := mixed_files st @
                      [(error_path store_key ''mixed'' nm i, (nm, i))],
                   logs := logs st @ [empty_log store_key nm i ''MIXED'']\<rparr>"
    using h unfolding st'_def ms_def cands_def by (rule process_page_mixed)
  show "vendor_writers st' = vendor_writers st" by (simp add: m)
qed

text \<open>Three pages: no text, one SKU of vendor Acme, two identifiers of two vendors.\<close>

theorem decision_by_distinct_vendors_witness:
  "unmatched_files (process_page False Map.empty ''Depot'' ''a.pdf'' 0 Raises init_state)
     = [(error_path ''Depot'' ''unmatched'' ''a.pdf'' 0, (''a.pdf'', 0))]
   \<and> vendor_writers (process_page False [''A12'' \<mapsto> ''Acme''] ''Depot'' ''a.pdf'' 0
        (Returns (Some ''SKU: A12'')) init_state) = [(''Acme'', [(''a.pdf'', 0)])]
   \<and> mixed_files (process_page False [''ABC123'' \<mapsto> ''Acme'', ''XYZ999'' \<mapsto> ''Beta''] ''Depot''
        ''a.pdf'' 0 (Returns (Some ''Model #: ABC-123 Item# XYZ999'')) init_state)
       = [(error_path ''Depot'' ''mixed'' ''a.pdf'' 0, (''a.pdf'', 0))]"
proof (intro conjI)
  have "card (set (map m_vendor (page_matches False Map.empty
          (extract_candidates (Some (page_text Raises)))))) = 0"
    by (simp add: page_text_def extract_candidates_def)
  then show "unmatched_files (process_page False Map.empty ''Depot'' ''a.pdf'' 0 Raises init_state)
     = [(error_path ''Depot'' ''unmatched'' ''a.pdf'' 0, (''a.pdf'', 0))]"
    using decision_by_distinct_vendors [where zs = False and mapping = Map.empty
        and page = Raises and st = init_state and store_key = "''Depot''" and nm = "''a.pdf''"
        and i = 0]
    by (simp add: init_state_def)
next
  let ?mp = "[''A12'' \<mapsto> ''Acme'']"
  let ?pg = "Returns (Some ''SKU: A12'')"
  have ms: "map m_vendor (page_matches False ?mp (extract_candidates (Some (page_text ?pg))))
      = [''Acme'']"
    by (simp add: page_text_def extract_sku_a12 normalize_a12 Let_def)
  have c: "card (set (map m_vendor (page_matches False ?mp
      (extract_candidates (Some (page_text ?pg)))))) = 1"
    unfolding ms by simp
  from decision_by_distinct_vendors [where zs = False and mapping = ?mp
        and page = ?pg and st = init_state and store_key = "''Depot''" and nm = "''a.pdf''"
        and i = 0] c
  obtain v where v: "set (map m_vendor (page_matches False ?mp
      (extract_candidates (Some (page_text ?pg))))) = {v}"
    and s: "process_page False ?mp ''Depot'' ''a.pdf'' 0 ?pg init_state
       = init_state\<lparr>vendor_writers :=
            add_page v (''a.pdf'', 0) (ensure_writer v (vendor_writers init_state)),
          logs := logs init_state @ [routed_log ''Depot'' ''a.pdf'' 0 v
            (best_match (page_matches False ?mp (extract_candidates (Some (page_text ?pg)))))]\<rparr>"
    by blast
  have "v = ''Acme''" using v unfolding ms by simp
  then show "vendor_writers (process_page False ?mp ''Depot'' ''a.pdf'' 0 ?pg init_state)
      = [(''Acme'', [(''a.pdf'', 0)])]"
    unfolding s by (simp add: init_state_def ensure_writer_def)
next
  let ?mp = "[''ABC123'' \<mapsto> ''Acme'', ''XYZ999'' \<mapsto> ''Beta'']"
  let ?pg = "Returns (Some ''Model #: ABC-123 Item# XYZ999'')"
  have ms: "map m_vendor (page_matches False ?mp (extract_candidates (Some (page_text ?pg))))
      = [''Acme'', ''Beta'']"
    by (simp add: page_text_def extract_model_item normalize_abc normalize_xyz Let_def)
  have c: "2 \<le> card (set (map m_vendor (page_matches False ?mp
      (extract_candidates (Some (page_text ?pg))))))"
    unfolding ms by simp
  then show "mixed_files (process_page False ?mp ''Depot'' ''a.pdf'' 0 ?pg init_state)
       = [(error_path ''Depot'' ''mixed'' ''a.pdf'' 0, (''a.pdf'', 0))]"
    using decision_by_distinct_vendors [where zs = False and mapping = ?mp
        and page = ?pg and st = init_state and store_key = "''Depot''" and nm = "''a.pdf''"
        and i = 0]
    by (simp add: init_state_def)
qed

lemma position_py_index:
  "py_index anchor_order l =
     (if l = ''Model'' then 0 else if l = ''Item'' then 1 else if l = ''Internet'' then 2
      else if l = ''SKU'' then 3 else 4)"
  by (simp add: anchor_order_eq)

lemma confidence_of_label:
  "format_2f (anchor_score l) =
     (if l = ''Model'' then ''1.00'' else if l = ''Item'' then ''0.90''
      else if l = ''Internet'' then ''0.80'' else if l = ''SKU'' then ''0.70'' else ''0.50'')"
proof -
  consider "l = ''Model''" | "l = ''Item''" | "l = ''Internet''" | "l = ''SKU''"
    | "l \<notin> set anchor_order"
    by (auto simp add: anchor_order_eq)
  then show ?thesis
  proof cases
    case 5
    have h: "anchor_score l = 1 / 2" using 5 by (simp add: anchor_score_def)
    have f: "format_2f (anchor_score l) = ''0.50''" unfolding h by (rule format_scores(5))
    have n: "l \<noteq> ''Model'' \<and> l \<noteq> ''Item'' \<and> l \<noteq> ''Internet'' \<and> l \<noteq> ''SKU''"
      using 5 by (auto simp add: anchor_order_eq)
    show ?thesis unfolding f using n by simp
  qed (simp_all add: anchor_scores format_scores)
qed

lemma best_of_one: "[m] = pre @ b # post \<Longrightarrow> b = m"
  by (cases pre) auto

lemma best_of_two:
  assumes "[m, n] = pre @ b # post" and "\<forall>x\<in>set pre. m_score x < m_score b"
    and "m_score n \<le> m_score m"
  shows "b = m"
proof (cases pre)
  case Nil
  then show ?thesis using assms(1) by simp
next
  case (Cons x xs)
  then have x: "x = m" and r: "[n] = xs @ b # post" using assms(1) by auto
  have "m_score x < m_score b" using assms(2) Cons by simp
  moreover have "b = n" using r by (rule best_of_one)
  ultimately show ?thesis using x assms(3) by simp
qed

text \<open>
  C2. On a page that resolves to exactly one vendor, every match carries the score of its
  anchor label: \<open>1 - 0.1 * k\<close> for the label at position \<open>k\<close> of Model, Item,
  Internet, SKU (1, 0.9, 0.8, 0.7), and \<open>0.5\<close> for any other label. The match that is
  logged is the first one, in the order of the matches, with the highest score; no match
  has a label earlier in the anchor order; its confidence is logged as \<open>1.00\<close>, \<open>0.90\<close>,
  \<open>0.80\<close>, \<open>0.70\<close> or \<open>0.50\<close>. For the candidates (Model, ABC-123) and (Item, XYZ999),
  both of vendor Acme, it is the Model match, in whichever order they come.
\<close>

theorem routed_best_match:
  fixes zs :: bool and mapping :: "string \<rightharpoonup> string" and store_key nm :: string
    and i :: nat and page :: extraction and st :: state
  defines "cands \<equiv> extract_candidates (Some (page_text page))"
  defines "ms \<equiv> page_matches zs mapping cands"
  defines "st' \<equiv> process_page zs mapping store_key nm i page st"
  defines "position \<equiv> \<lambda>l. if l = ''Model'' then (0::nat) else if l = ''Item'' then 1
      else if l = ''Internet'' then 2 else if l = ''SKU'' then 3 else 4"
  assumes routed: "card (set (map m_vendor ms)) = 1"
  shows
    "anchor_order = [''Model'', ''Item'', ''Internet'', ''SKU'']
     \<and> (\<forall>m\<in>set ms. m_score m =
           (if position (m_label m) < 4 then 1 - (1 / 10) * of_nat (position (m_label m))
            else 1 / 2))
     \<and> (\<exists>v b pre post.
           set (map m_vendor ms) = {v}
           \<and> ms = pre @ b # post
           \<and> (\<forall>m\<in>set pre. m_score m < m_score b)
           \<and> (\<forall>m\<in>set post. m_score m \<le> m_score b)
           \<and> (\<forall>m\<in>set ms. position (m_label b) \<le> position (m_label m))
           \<and> logs st' = logs st @
                [\<lparr>store = store_key, source_pdf = nm, page_index = str_nat i, vendor = v,
                  raw_token = m_raw b, normalized = m_nz b, anchor = m_label b,
                  log_method = ''native'',
                  confidence =
                    (if m_label b = ''Model'' then ''1.00''
                     else if m_label b = ''Item'' then ''0.90''
                     else if m_label b = ''Internet'' then ''0.80''
                     else if m_label b = ''SKU'' then ''0.70'' else ''0.50'')\<rparr>])
     \<and> (anchor_score ''Model'' = 1 \<and> anchor_score ''Item'' = 9 / 10
        \<and> anchor_score ''Internet'' = 4 / 5 \<and> anchor_score ''SKU'' = 7 / 10
        \<and> (\<forall>l. l \<notin> set anchor_order \<longrightarrow> anchor_score l = 1 / 2))
     \<and> (\<forall>mp z. mp ''ABC123'' = Some ''Acme'' \<and> mp ''XYZ999'' = Some ''Acme'' \<longrightarrow>
           (\<exists>b. best_match (page_matches z mp [(''Model'', ''ABC-123''), (''Item'', ''XYZ999'')])
                  = Some b \<and> m_label b = ''Model'' \<and> m_vendor b = ''Acme'' \<and> m_score b = 1)
           \<and> (\<exists>b. best_match (page_matches z mp [(''Item'', ''XYZ999''), (''Model'', ''ABC-123'')])
                  = Some b \<and> m_label b = ''Model'' \<and> m_vendor b = ''Acme'' \<and> m_score b = 1)
           \<and> (\<exists>b. best_match (page_matches z mp [(''Other'', ''XYZ999''), (''SKU'', ''ABC-123'')])
                  = Some b \<and> m_label b = ''SKU'' \<and> m_score b = 7 / 10))"
proof (intro conjI)
  have pos: "\<And>l. position l = py_index anchor_order l"
    unfolding position_def by (simp add: position_py_index)
  show "anchor_order = [''Model'', ''Item'', ''Internet'', ''SKU'']" by (rule anchor_order_eq)
  have sc: "\<forall>m\<in>set ms. m_score m = anchor_score (m_label m)"
    unfolding ms_def using page_matches_fields by metis
  show "\<forall>m\<in>set ms. m_score m =
           (if position (m_label m) < 4 then 1 - (1 / 10) * of_nat (position (m_label m))
            else 1 / 2)"
    using sc anchor_score_index unfolding pos by metis
  obtain v where v: "set (map m_vendor ms) = {v}" using routed card_one_single by blast
  then have ne: "ms \<noteq> []" by auto
  obtain b pre post where b: "best_match ms = Some b" "ms = pre @ b # post"
      "\<forall>m\<in>set pre. m_score m < m_score b" "\<forall>m\<in>set post. m_score m \<le> m_score b"
    using best_match_first_highest [OF ne] by blast
  have le: "\<forall>m\<in>set ms. m_score m \<le> m_score b"
    using b(2,3,4) by auto
  have bin: "b \<in> set ms" using b(2) by simp
  have pr: "\<forall>m\<in>set ms. position (m_label b) \<le> position (m_label m)"
  proof
    fix m assume m: "m \<in> set ms"
    then have "anchor_score (m_label m) \<le> anchor_score (m_label b)"
      using le sc bin by metis
    then show "position (m_label b) \<le> position (m_label m)"
      unfolding pos by (rule anchor_score_antimono)
  qed
  have nat: "m_method b = ''native''"
    using bin unfolding ms_def using page_matches_fields by metis
  have cf: "format_2f (m_score b) =
      (if m_label b = ''Model'' then ''1.00'' else if m_label b = ''Item'' then ''0.90''
       else if m_label b = ''Internet'' then ''0.80''
       else if m_label b = ''SKU'' then ''0.70'' else ''0.50'')"
    using sc bin confidence_of_label [of "m_label b"] by simp
  have "st' = st\<lparr>vendor_writers := add_page v (nm, i) (ensure_writer v (vendor_writers st)),
                  logs := logs st @ [routed_log store_key nm i v (best_match ms)]\<rparr>"
    using v unfolding st'_def ms_def cands_def by (rule process_page_routed)
  then have lg: "logs st' = logs st @
                [\<lparr>store = store_key, source_pdf = nm, page_index = str_nat i, vendor = v,
                  raw_token = m_raw b, normalized = m_nz b, anchor = m_label b,
                  log_method = ''native'',
                  confidence =
                    (if m_label b = ''Model'' then ''1.00''
                     else if m_label b = ''Item'' then ''0.90''
                     else if m_label b = ''Internet'' then ''0.80''
                     else if m_label b = ''SKU'' then ''0.70'' else ''0.50'')\<rparr>]"
    unfolding cf [symmetric] by (simp add: routed_log_def b(1) nat)
  show "\<exists>v b pre post.
           set (map m_vendor ms) = {v}
           \<and> ms = pre @ b # post
           \<and> (\<forall>m\<in>set pre. m_score m < m_score b)
           \<and> (\<forall>m\<in>set post. m_score m \<le> m_score b)
           \<and> (\<forall>m\<in>set ms. position (m_label b) \<le> position (m_label m))
           \<and> logs st' = logs st @
                [\<lparr>store = store_key, source_pdf = nm, page_index = str_nat i, vendor = v,
                  raw_token = m_raw b, normalized = m_nz b, anchor = m_label b,
                  log_method = ''native'',
                  confidence =
                    (if m_label b = ''Model'' then ''1.00''
                     else if m_label b = ''Item'' then ''0.90''
                     else if m_label b = ''Internet'' then ''0.80''
                     else if m_label b = ''SKU'' then ''0.70'' else ''0.50'')\<rparr>]"
    by (intro exI [of _ v] exI [of _ b] exI [of _ pre] exI [of _ post] conjI v b(2,3,4) pr lg)
next
  show "anchor_score ''Model'' = 1" "anchor_score ''Item'' = 9 / 10"
    "anchor_score ''Internet'' = 4 / 5" "anchor_score ''SKU'' = 7 / 10"
    by (rule anchor_scores)+
  show "\<forall>l. l \<notin> set anchor_order \<longrightarrow> anchor_score l = 1 / 2"
    by (simp add: anchor_score_def)
next
  show "\<forall>mp z. mp ''ABC123'' = Some ''Acme'' \<and> mp ''XYZ999'' = Some ''Acme'' \<longrightarrow>
           (\<exists>b. best_match (page_matches z mp [(''Model'', ''ABC-123''), (''Item'', ''XYZ999'')])
                  = Some b \<and> m_label b = ''Model'' \<and> m_vendor b = ''Acme'' \<and> m_score b = 1)
           \<and> (\<exists>b. best_match (page_matches z mp [(''Item'', ''XYZ999''), (''Model'', ''ABC-123'')])
                  = Some b \<and> m_label b = ''Model'' \<and> m_vendor b = ''Acme'' \<and> m_score b = 1)
           \<and> (\<exists>b. best_match (page_matches z mp [(''Other'', ''XYZ999''), (''SKU'', ''ABC-123'')])
                  = Some b \<and> m_label b = ''SKU'' \<and> m_score b = 7 / 10)"
    by (simp add: best_match_def Let_def normalize_abc normalize_xyz anchor_scores
        anchor_score_def [of "''Other''"] anchor_order_eq)
qed

text \<open>
  Three pages of vendor Acme: a Model and an Item identifier, an Item and a SKU
  identifier, and a SKU identifier alone.
\<close>

theorem routed_best_match_witness:
  "map (\<lambda>r. (anchor r, confidence r))
      (logs (process_page False [''ABC123'' \<mapsto> ''Acme'', ''XYZ999'' \<mapsto> ''Acme''] ''Depot''
         ''a.pdf'' 0 (Returns (Some ''Model #: ABC-123 Item# XYZ999'')) init_state))
     = [(''Model'', ''1.00'')]
   \<and> map (\<lambda>r. (anchor r, confidence r))
      (logs (process_page False [''A12'' \<mapsto> ''Acme'', ''XYZ999'' \<mapsto> ''Acme''] ''Depot''
         ''a.pdf'' 1 (Returns (Some ''Item# XYZ999 SKU: A12'')) init_state))
     = [(''Item'', ''0.90'')]
   \<and> map (\<lambda>r. (anchor r, confidence r))
      (logs (process_page False [''A12'' \<mapsto> ''Acme''] ''Depot''
         ''a.pdf'' 2 (Returns (Some ''SKU: A12'')) init_state))
     = [(''SKU'', ''0.70'')]"
proof (intro conjI)
  let ?mp = "[''ABC123'' \<mapsto> ''Acme'', ''XYZ999'' \<mapsto> ''Acme'']"
  let ?pg = "Returns (Some ''Model #: ABC-123 Item# XYZ999'')"
  let ?m = "\<lparr>m_raw = ''ABC-123'', m_nz = ''ABC123'', m_vendor = ''Acme'', m_label = ''Model'',
              m_method = ''native'', m_score = 1\<rparr>"
  let ?n = "\<lparr>m_raw = ''XYZ999'', m_nz = ''XYZ999'', m_vendor = ''Acme'', m_label = ''Item'',
              m_method = ''native'', m_score = 9 / 10\<rparr>"
  let ?st' = "process_page False ?mp ''Depot'' ''a.pdf'' 0 ?pg init_state"
  let ?ms = "page_matches False ?mp (extract_candidates (Some (page_text ?pg)))"
  have ms: "?ms = [?m, ?n]"
    by (simp add: page_text_def extract_model_item normalize_abc normalize_xyz Let_def
        anchor_scores)
  have c: "card (set (map m_vendor ?ms)) = 1" unfolding ms by simp
  note th = routed_best_match [where zs = False and mapping = ?mp and page = ?pg
      and st = init_state and store_key = "''Depot''" and nm = "''a.pdf''" and i = 0, OF c]
  from th [THEN conjunct2, THEN conjunct2, THEN conjunct1]
  obtain v b pre post where
    sp: "?ms = pre @ b # post"
    and lo: "\<forall>m\<in>set pre. m_score m < m_score b"
    and lg: "logs ?st' = logs init_state @
                [\<lparr>store = ''Depot'', source_pdf = ''a.pdf'', page_index = str_nat 0, vendor = v,
                  raw_token = m_raw b, normalized = m_nz b, anchor = m_label b,
                  log_method = ''native'',
                  confidence =
                    (if m_label b = ''Model'' then ''1.00''
                     else if m_label b = ''Item'' then ''0.90''
                     else if m_label b = ''Internet'' then ''0.80''
                     else if m_label b = ''SKU'' then ''0.70'' else ''0.50'')\<rparr>]"
    by (elim exE conjE) (rule that)
  have "[?m, ?n] = pre @ b # post" using sp unfolding ms .
  then have "b = ?m" using lo by (rule best_of_two) simp
  then show "map (\<lambda>r. (anchor r, confidence r)) (logs ?st') = [(''Model'', ''1.00'')]"
    unfolding lg by (simp add: init_state_def)
next
  let ?mp = "[''A12'' \<mapsto> ''Acme'', ''XYZ999'' \<mapsto> ''Acme'']"
  let ?pg = "Returns (Some ''Item# XYZ999 SKU: A12'')"
  let ?m = "\<lparr>m_raw = ''XYZ999'', m_nz = ''XYZ999'', m_vendor = ''Acme'', m_label = ''Item'',
              m_method = ''native'', m_score = 9 / 10\<rparr>"
  let ?n = "\<lparr>m_raw = ''A12'', m_nz = ''A12'', m_vendor = ''Acme'', m_label = ''SKU'',
              m_method = ''native'', m_score = 7 / 10\<rparr>"
  let ?st' = "process_page False ?mp ''Depot'' ''a.pdf'' 1 ?pg init_state"
  let ?ms = "page_matches False ?mp (extract_candidates (Some (page_text ?pg)))"
  have ms: "?ms = [?m, ?n]"
    by (simp add: page_text_def extract_item_sku normalize_a12 normalize_xyz Let_def
        anchor_scores)
  have c: "card (set (map m_vendor ?ms)) = 1" unfolding ms by simp
  note th = routed_best_match [where zs = False and mapping = ?mp and page = ?pg
      and st = init_state and store_key = "''Depot''" and nm = "''a.pdf''" and i = 1, OF c]
  from th [THEN conjunct2, THEN conjunct2, THEN conjunct1]
  obtain v b pre post where
    sp: "?ms = pre @ b # post"
    and lo: "\<forall>m\<in>set pre. m_score m < m_score b"
    and lg: "logs ?st' = logs init_state @
                [\<lparr>store = ''Depot'', source_pdf = ''a.pdf'', page_index = str_nat 1, vendor = v,
                  raw_token = m_raw b, normalized = m_nz b, anchor = m_label b,
                  log_method = ''native'',
                  confidence =
                    (if m_label b = ''Model'' then ''1.00''
                     else if m_label b = ''Item'' then ''0.90''
                     else if m_label b = ''Internet'' then ''0.80''
                     else if m_label b = ''SKU'' then ''0.70'' else ''0.50'')\<rparr>]"
    by (elim exE conjE) (rule that)
  have "[?m, ?n] = pre @ b # post" using sp unfolding ms .
  then have "b = ?m" using lo by (rule best_of_two) simp
  then show "map (\<lambda>r. (anchor r, confidence r)) (logs ?st') = [(''Item'', ''0.90'')]"
    unfolding lg by (simp add: init_state_def)
next
  let ?mp = "[''A12'' \<mapsto> ''Acme'']"
  let ?pg = "Returns (Some ''SKU: A12'')"
  let ?m = "\<lparr>m_raw = ''A12'', m_nz = ''A12'', m_vendor = ''Acme'', m_label = ''SKU'',
              m_method = ''native'', m_score = 7 / 10\<rparr>"
  let ?st' = "process_page False ?mp ''Depot'' ''a.pdf'' 2 ?pg init_state"
  let ?ms = "page_matches False ?mp (extract_candidates (Some (page_text ?pg)))"
  have ms: "?ms = [?m]"
    by (simp add: page_text_def extract_sku_a12 normalize_a12 Let_def anchor_scores)
  have c: "card (set (map m_vendor ?ms)) = 1" unfolding ms by simp
  note th = routed_best_match [where zs = False and mapping = ?mp and page = ?pg
      and st = init_state and store_key = "''Depot''" and nm = "''a.pdf''" and i = 2, OF c]
  from th [THEN conjunct2, THEN conjunct2, THEN conjunct1]
  obtain v b pre post where
    sp: "?ms = pre @ b # post"
    and lg: "logs ?st' = logs init_state @
                [\<lparr>store = ''Depot'', source_pdf = ''a.pdf'', page_index = str_nat 2, vendor = v,
                  raw_token = m_raw b, normalized = m_nz b, anchor = m_label b,
                  log_method = ''native'',
                  confidence =
                    (if m_label b = ''Model'' then ''1.00''
                     else if m_label b = ''Item'' then ''0.90''
                     else if m_label b = ''Internet'' then ''0.80''
                     else if m_label b = ''SKU'' then ''0.70'' else ''0.50'')\<rparr>]"
    by (elim exE conjE) (rule that)
  have "[?m] = pre @ b # post" using sp unfolding ms .
  then have "b = ?m" by (rule best_of_one)
  then show "map (\<lambda>r. (anchor r, confidence r)) (logs ?st') = [(''SKU'', ''0.70'')]"
    unfolding lg by (simp add: init_state_def)
qed

text \<open>
  C9. A page that is not routed (its matches resolve to no vendor, or to two or more) gets
  one log row with empty \<open>raw_token\<close>, \<open>normalized\<close>, \<open>anchor\<close> and \<open>method\<close> and the
  confidence \<open>0.00\<close>; the row says MIXED when the page has matches and UNMATCHED when it
  has none.
\<close>

theorem unrouted_log_is_empty:
  fixes zs :: bool and mapping :: "string \<rightharpoonup> string" and store_key nm :: string
    and i :: nat and page :: extraction and st :: state
  defines "ms \<equiv> page_matches zs mapping (extract_candidates (Some (page_text page)))"
  defines "st' \<equiv> process_page zs mapping store_key nm i page st"
  assumes unrouted: "card (set (map m_vendor ms)) \<noteq> 1"
  shows "\<exists>r. logs st' = logs st @ [r]
           \<and> raw_token r = [] \<and> normalized r = [] \<and> anchor r = [] \<and> log_method r = []
           \<and> confidence r = ''0.00''
           \<and> vendor r = (if ms = [] then ''UNMATCHED'' else ''MIXED'')"
proof (cases "ms = []")
  case True
  then have "set (map m_vendor ms) = {}" by simp
  then have "st' = st\<lparr>unmatched_files := unmatched_files st @
                      [(error_path store_key ''unmatched'' nm i, (nm, i))],
                   logs := logs st @ [empty_log store_key nm i ''UNMATCHED'']\<rparr>"
    unfolding st'_def ms_def by (rule process_page_unmatched)
  then show ?thesis using True by (simp add: empty_log_def)
next
  case False
  then have "set (map m_vendor ms) \<noteq> {}" by simp
  then have "card (set (map m_vendor ms)) \<noteq> 0" by simp
  then have "2 \<le> card (set (map m_vendor ms))" using unrouted by arith
  then have "st' = st\<lparr>mixed_files := mixed_files st @
                      [(error_path store_key ''mixed'' nm i, (nm, i))],
                   logs := logs st @ [empty_log store_key nm i ''MIXED'']\<rparr>"
    unfolding st'_def ms_def by (rule process_page_mixed)
  then show ?thesis using False by (simp add: empty_log_def)
qed

text \<open>A mixed page: its two identifiers belong to Acme and to Beta.\<close>

theorem unrouted_log_is_empty_witness:
  "map vendor (logs (process_page False [''ABC123'' \<mapsto> ''Acme'', ''XYZ999'' \<mapsto> ''Beta''] ''Depot''
       ''a.pdf'' 0 (Returns (Some ''Model #: ABC-123 Item# XYZ999'')) init_state)) = [''MIXED'']
   \<and> map raw_token (logs (process_page False [''ABC123'' \<mapsto> ''Acme'', ''XYZ999'' \<mapsto> ''Beta'']
       ''Depot'' ''a.pdf'' 0 (Returns (Some ''Model #: ABC-123 Item# XYZ999'')) init_state)) = [[]]
   \<and> map confidence (logs (process_page False [''ABC123'' \<mapsto> ''Acme'', ''XYZ999'' \<mapsto> ''Beta'']
       ''Depot'' ''a.pdf'' 0 (Returns (Some ''Model #: ABC-123 Item# XYZ999'')) init_state))
       = [''0.00'']"
proof -
  let ?mp = "[''ABC123'' \<mapsto> ''Acme'', ''XYZ999'' \<mapsto> ''Beta'']"
  let ?pg = "Returns (Some ''Model #: ABC-123 Item# XYZ999'')"
  have ms: "map m_vendor (page_matches False ?mp (extract_candidates (Some (page_text ?pg))))
      = [''Acme'', ''Beta'']"
    by (simp add: page_text_def extract_model_item normalize_abc normalize_xyz Let_def)
  then have ne: "page_matches False ?mp (extract_candidates (Some (page_text ?pg))) \<noteq> []"
    by auto
  have c: "card (set (map m_vendor (page_matches False ?mp
      (extract_candidates (Some (page_text ?pg)))))) \<noteq> 1"
    unfolding ms by simp
  show ?thesis
    using unrouted_log_is_empty [where zs = False and mapping = ?mp and page = ?pg
      and st = init_state and store_key = "''Depot''" and nm = "''a.pdf''" and i = 0, OF c] ne
    by (auto simp add: init_state_def)
qed

text \<open>
  C6. \<open>extract_candidates\<close> returns the empty list for a missing or empty text, and it is
  a total function: it has a value for every text. A page whose text extraction raised or
  gave nothing has the empty text, and a page with the empty text is written to
  \<open>errors/unmatched\<close> and logged as UNMATCHED, whatever the mapping.
\<close>

theorem empty_text_is_unmatched:
  "extract_candidates None = [] \<and> extract_candidates (Some []) = []
   \<and> page_text Raises = [] \<and> page_text (Returns None) = [] \<and> page_text (Returns (Some [])) = []
   \<and> (page_text page = [] \<longrightarrow>
        process_page zs mapping store_key nm i page st =
          st\<lparr>unmatched_files := unmatched_files st @
                [(error_path store_key ''unmatched'' nm i, (nm, i))],
             logs := logs st @ [empty_log store_key nm i ''UNMATCHED'']\<rparr>)"
proof (intro conjI impI)
  assume "page_text page = []"
  then have "set (map m_vendor (page_matches zs mapping
      (extract_candidates (Some (page_text page))))) = {}"
    by (simp add: extract_candidates_def)
  then show "process_page zs mapping store_key nm i page st =
          st\<lparr>unmatched_files := unmatched_files st @
                [(error_path store_key ''unmatched'' nm i, (nm, i))],
             logs := logs st @ [empty_log store_key nm i ''UNMATCHED'']\<rparr>"
    by (rule process_page_unmatched)
qed (simp_all add: extract_candidates_def page_text_def)

theorem empty_text_is_unmatched_witness:
  "process_page False [''A12'' \<mapsto> ''Acme''] ''Depot'' ''a.pdf'' 3 Raises init_state =
     init_state\<lparr>unmatched_files := [(error_path ''Depot'' ''unmatched'' ''a.pdf'' 3, (''a.pdf'', 3))],
                logs := [empty_log ''Depot'' ''a.pdf'' 3 ''UNMATCHED'']\<rparr>"
proof -
  have h: "page_text Raises = []" by (simp add: page_text_def)
  show ?thesis
    using h empty_text_is_unmatched [where page = Raises and zs = False
      and mapping = "[''A12'' \<mapsto> ''Acme'']" and store_key = "''Depot''" and nm = "''a.pdf''"
      and i = 3 and st = init_state]
    by (simp add: init_state_def)
qed

subsection \<open>Pages placed, log rows and files written\<close>












subsection \<open>The page loop\<close>









subsection \<open>Files on disk\<close>









subsection \<open>Claim about destinations and log rows\<close>




subsection \<open>Claims about the vendor mapping\<close>

lemma build_mapping_append:
  "build_mapping zs vendor_col key_cols (xs @ ys) m
     = build_mapping zs vendor_col key_cols ys (build_mapping zs vendor_col key_cols xs m)"
  by (induction xs arbitrary: m) (simp_all add: Let_def)

lemma build_mapping_skip:
  assumes "py_strip (r vendor_col) = [] \<or> is_placeholder (py_strip (r vendor_col))"
  shows "build_mapping zs vendor_col key_cols (r # rows) m
      = build_mapping zs vendor_col key_cols rows m"
  using assms by (simp add: Let_def)

text \<open>
  C8. A row whose vendor cell is blank, or reads \<open>nan\<close> or \<open>None\<close>, once stripped, is
  skipped: the mapping built from the rows is the mapping built from the rows without it,
  whatever its key cells hold.
\<close>

theorem blank_vendor_row_skipped:
  assumes "py_strip (r vendor_col) = [] \<or> py_strip (r vendor_col) = ''nan''
           \<or> py_strip (r vendor_col) = ''None''"
  shows "build_mapping zs vendor_col key_cols (rows_before @ r # rows_after) m
      = build_mapping zs vendor_col key_cols (rows_before @ rows_after) m"
proof -
  have "py_strip (r vendor_col) = [] \<or> is_placeholder (py_strip (r vendor_col))"
    using assms by (auto simp add: is_placeholder_def)
  then show ?thesis by (simp add: build_mapping_append build_mapping_skip)
qed

text \<open>A row of vendor Acme, then a row without vendor whose SKU cell holds \<open>QQQ\<close>.\<close>

theorem blank_vendor_row_skipped_witness:
  "build_mapping False ''Vendor'' [''SKU'']
      [\<lambda>c. if c = ''Vendor'' then ''Acme'' else ''A12'',
       \<lambda>c. if c = ''Vendor'' then ''nan'' else ''QQQ''] Map.empty
     = build_mapping False ''Vendor'' [''SKU'']
      [\<lambda>c. if c = ''Vendor'' then ''Acme'' else ''A12''] Map.empty
   \<and> build_mapping False ''Vendor'' [''SKU'']
      [\<lambda>c. if c = ''Vendor'' then ''Acme'' else ''A12'',
       \<lambda>c. if c = ''Vendor'' then ''nan'' else ''QQQ''] Map.empty ''QQQ'' = None"
proof -
  let ?r1 = "\<lambda>c. if c = ''Vendor'' then ''Acme'' else ''A12''"
  let ?r2 = "\<lambda>c. if c = ''Vendor'' then ''nan'' else ''QQQ''"
  have h: "py_strip (?r2 ''Vendor'') = [] \<or> py_strip (?r2 ''Vendor'') = ''nan''
           \<or> py_strip (?r2 ''Vendor'') = ''None''"
    by (simp add: py_strip_examples)
  have e: "build_mapping False ''Vendor'' [''SKU''] [?r1, ?r2] Map.empty
      = build_mapping False ''Vendor'' [''SKU''] [?r1] Map.empty"
    using blank_vendor_row_skipped [where r = ?r2 and vendor_col = "''Vendor''"
        and rows_before = "[?r1]" and rows_after = "[]" and zs = False and key_cols = "[''SKU'']"
        and m = Map.empty, OF h]
    by simp
  have "build_mapping False ''Vendor'' [''SKU''] [?r1] Map.empty = [''A12'' \<mapsto> ''Acme'']"
    by (simp add: Let_def py_strip_examples is_placeholder_def normalize_a12)
  then show ?thesis using e by simp
qed

text \<open>
  C10. The non-empty tokens \<open>---\<close> (either setting) and \<open>0--\<close> (leading zeros stripped)
  normalize to the empty string. A row of vendor Acme whose key cell holds \<open>---\<close> puts the
  empty key in the mapping, and a page reading \<open>SKU: 0--\<close> then resolves to Acme through
  that key.
\<close>

theorem empty_key_resolves:
  "normalize_key zs ''---'' = [] \<and> normalize_key False ''0--'' = []
   \<and> build_mapping zs ''Vendor'' [''SKU'']
        [\<lambda>c. if c = ''Vendor'' then ''Acme'' else ''---''] Map.empty = [[] \<mapsto> ''Acme'']
   \<and> extract_candidates (Some ''SKU: 0--'') = [(''SKU'', ''0--'')]
   \<and> process_page False [[] \<mapsto> ''Acme''] store_key nm i (Returns (Some ''SKU: 0--'')) st =
        st\<lparr>vendor_writers := add_page ''Acme'' (nm, i) (ensure_writer ''Acme'' (vendor_writers st)),
           logs := logs st @
             [\<lparr>store = store_key, source_pdf = nm, page_index = str_nat i, vendor = ''Acme'',
               raw_token = ''0--'', normalized = [], anchor = ''SKU'', log_method = ''native'',
               confidence = ''0.70''\<rparr>]\<rparr>"
proof (intro conjI)
  show "normalize_key zs ''---'' = []" by (rule normalize_dashes)
  show "normalize_key False ''0--'' = []" by (rule normalize_zero_dashes)
  show "build_mapping zs ''Vendor'' [''SKU'']
        [\<lambda>c. if c = ''Vendor'' then ''Acme'' else ''---''] Map.empty = [[] \<mapsto> ''Acme'']"
    by (simp add: Let_def py_strip_examples is_placeholder_def normalize_dashes)
  show "extract_candidates (Some ''SKU: 0--'') = [(''SKU'', ''0--'')]"
    by (rule extract_sku_zero)
next
  let ?pg = "Returns (Some ''SKU: 0--'')"
  let ?m = "\<lparr>m_raw = ''0--'', m_nz = [], m_vendor = ''Acme'', m_label = ''SKU'',
             m_method = ''native'', m_score = 7 / 10\<rparr>"
  have ms: "page_matches False [[] \<mapsto> ''Acme''] (extract_candidates (Some (page_text ?pg))) = [?m]"
    by (simp add: page_text_def extract_sku_zero normalize_zero_dashes Let_def anchor_scores)
  then have v: "set (map m_vendor (page_matches False [[] \<mapsto> ''Acme'']
      (extract_candidates (Some (page_text ?pg))))) = {''Acme''}"
    by simp
  have b: "best_match [?m] = Some ?m" by (simp add: best_match_def)
  show "process_page False [[] \<mapsto> ''Acme''] store_key nm i ?pg st =
        st\<lparr>vendor_writers := add_page ''Acme'' (nm, i) (ensure_writer ''Acme'' (vendor_writers st)),
           logs := logs st @
             [\<lparr>store = store_key, source_pdf = nm, page_index = str_nat i, vendor = ''Acme'',
               raw_token = ''0--'', normalized = [], anchor = ''SKU'', log_method = ''native'',
               confidence = ''0.70''\<rparr>]\<rparr>"
    unfolding process_page_routed [OF v] ms b
    by (simp add: routed_log_def format_scores)
qed

theorem empty_key_resolves_witness:
  "vendor_writers (process_page False [[] \<mapsto> ''Acme''] ''Depot'' ''a.pdf'' 0
       (Returns (Some ''SKU: 0--'')) init_state) = [(''Acme'', [(''a.pdf'', 0)])]
   \<and> map normalized (logs (process_page False [[] \<mapsto> ''Acme''] ''Depot'' ''a.pdf'' 0
       (Returns (Some ''SKU: 0--'')) init_state)) = [[]]"
  using empty_key_resolves [where zs = False and store_key = "''Depot''" and nm = "''a.pdf''"
      and i = 0 and st = init_state]
  by (simp add: init_state_def ensure_writer_def)

end
